theory Spec2Isabelle
  imports Complex_Main "HOL-Library.Word" "HOL-Library.Monad_Syntax"
begin

section \<open>Build-time configuration (phoneline\_fixer V2.0)\<close>

text \<open>
  The sketch is compiled with \<open>DEBUG 0\<close> and \<open>TEST_MOSFETS false\<close>, so every
  \<open>#if DEBUG\<close> block, every \<open>if (DEBUG ...)\<close> statement, the \<open>if (0)\<close> block
  of \<open>loop\<close> and the multimeter test of \<open>setup\<close> are absent from the model.
\<close>

definition SAMPLE_INTERVAL :: nat where
  "SAMPLE_INTERVAL = 5"

definition NUM_SAMPLES :: nat where
  "NUM_SAMPLES = 50 div SAMPLE_INTERVAL"

definition NUM_HISTORY :: nat where
  "NUM_HISTORY = 2000 div SAMPLE_INTERVAL"

section \<open>Data model\<close>

datatype line_state_t = ON_HOOK | OFF_HOOK | RINGING

text \<open>The pins the sketch names with \<open>#define\<close>.\<close>

datatype pin =
    PBX_LINE_RING
  | PBX_LINE_TIP
  | DISCONNECT_SHUNT
  | DISCONNECT_CO_PBX_RING
  | DISCONNECT_CO_PBX_TIP
  | LED

datatype pin_mode = INPUT | OUTPUT

text \<open>
  Calls into the Arduino core, in the order the program makes them. \<open>HIGH\<close> is
  \<open>True\<close> and \<open>LOW\<close> is \<open>False\<close>; a delay carries its milliseconds.
\<close>

datatype event =
    PinMode pin pin_mode
  | DigitalWrite pin bool
  | AnalogRead pin
  | Delay nat

text \<open>
  \<open>struct pbx_line_t\<close>: \<open>nextslot\<close> is a \<open>short int\<close>, \<open>history\<close> an array of
  \<open>NUM_HISTORY\<close> values of type \<open>int8_t\<close>.
\<close>

record pbx_line_t =
  name :: string
  port :: pin
  nextslot :: int
  history :: "8 word list"

text \<open>
  The globals of the sketch, and \<open>trace\<close>, the calls made to the Arduino core so far
  (oldest first).
\<close>

record state =
  last_linestate :: line_state_t
  pbx_tip :: pbx_line_t
  pbx_ring :: pbx_line_t
  count :: "32 word"
  connected :: bool
  shunted :: bool
  trace :: "event list"

text \<open>The two values a \<open>struct pbx_line_t *\<close> takes in the sketch.\<close>

datatype line_ptr = PTR_pbx_tip | PTR_pbx_ring

fun deref :: "line_ptr \<Rightarrow> state \<Rightarrow> pbx_line_t" where
  "deref PTR_pbx_tip s = pbx_tip s"
| "deref PTR_pbx_ring s = pbx_ring s"

fun assign :: "line_ptr \<Rightarrow> pbx_line_t \<Rightarrow> state \<Rightarrow> state" where
  "assign PTR_pbx_tip l s = s\<lparr>pbx_tip := l\<rparr>"
| "assign PTR_pbx_ring l s = s\<lparr>pbx_ring := l\<rparr>"

text \<open>The globals as their initialisers leave them before \<open>setup\<close> runs.\<close>

definition initial_state :: state where
  "initial_state =
     \<lparr>last_linestate = ON_HOOK,
      pbx_tip = \<lparr>name = ''Tip'', port = PBX_LINE_TIP, nextslot = 0,
                 history = replicate NUM_HISTORY 0\<rparr>,
      pbx_ring = \<lparr>name = ''Ring'', port = PBX_LINE_RING, nextslot = 0,
                  history = replicate NUM_HISTORY 0\<rparr>,
      count = 0, connected = False, shunted = False, trace = []\<rparr>"

section \<open>Single-precision arithmetic\<close>

text \<open>
  On the ATmega328P both \<open>float\<close> and \<open>double\<close> are IEEE binary32, so every operation
  of \<open>read_voltage\<close>, and every constant expression the compiler folds, is a binary32
  operation. A finite binary32 value is a rational number, and an operation returns the
  exact result rounded to the nearest value with a 24-bit significand, ties to even.
  The exponent is bounded below (subnormal numbers). Overflow to infinity is not
  modelled: no value of \<open>read_voltage\<close> reaches \<open>2 ^ 19\<close> in magnitude.
\<close>

fun ilog2 :: "nat \<Rightarrow> nat" where
  "ilog2 n = (if n < 2 then 0 else Suc (ilog2 (n div 2)))"

declare ilog2.simps [simp del]

text \<open>\<open>flog2 x\<close> is the integer \<open>e\<close> with \<open>2 ^ e \<le> x < 2 ^ (e + 1)\<close>, for \<open>x > 0\<close>.\<close>

definition flog2 :: "rat \<Rightarrow> int" where
  "flog2 x =
     (let (p, q) = quotient_of x;
          d = int (ilog2 (nat p)) - int (ilog2 (nat q))
      in if 2 powi d \<le> x then d else d - 1)"

definition round_even :: "rat \<Rightarrow> int" where
  "round_even y =
     (let f = \<lfloor>y\<rfloor>; d = y - of_int f
      in if d < 1 / 2 then f
         else if 1 / 2 < d then f + 1
         else if even f then f else f + 1)"

definition ulp_exp :: "rat \<Rightarrow> int" where
  "ulp_exp x = max (flog2 \<bar>x\<bar>) (- 126) - 23"

definition f32 :: "rat \<Rightarrow> rat" where
  "f32 x = (if x = 0 then 0
            else of_int (round_even (x / 2 powi ulp_exp x)) * 2 powi ulp_exp x)"

definition fadd :: "rat \<Rightarrow> rat \<Rightarrow> rat" where
  "fadd x y = f32 (x + y)"

definition fsub :: "rat \<Rightarrow> rat \<Rightarrow> rat" where
  "fsub x y = f32 (x - y)"

definition fmul :: "rat \<Rightarrow> rat \<Rightarrow> rat" where
  "fmul x y = f32 (x * y)"

definition fdiv :: "rat \<Rightarrow> rat \<Rightarrow> rat" where
  "fdiv x y = f32 (x / y)"

text \<open>Conversion of a \<open>float\<close> to \<open>int\<close> discards the fraction.\<close>

definition float_to_int :: "rat \<Rightarrow> int" where
  "float_to_int x = (if 0 \<le> x then \<lfloor>x\<rfloor> else \<lceil>x\<rceil>)"

section \<open>Voltage acquisition\<close>

text \<open>The constants of the scale and bias network; each is a binary32 value.\<close>

definition Vref :: rat where
  "Vref = 5"

definition Vbias :: rat where
  "Vbias = 5"

definition RA :: rat where
  "RA = 100000"

definition RB :: rat where
  "RB = 8200"

definition RC :: rat where
  "RC = 9100"

text \<open>\<open>float Vout = (float)aval * Vref / 1024;\<close>\<close>

definition Vout_of :: "16 word \<Rightarrow> rat" where
  "Vout_of aval = fdiv (fmul (f32 (of_nat (unat aval))) Vref) 1024"

text \<open>\<open>float Vin = (Vout * (1 / RA + 1 / RB + 1 / RC) - Vbias / RB) * RA;\<close>\<close>

definition Vin_of :: "rat \<Rightarrow> rat" where
  "Vin_of Vout =
     fmul (fsub (fmul Vout (fadd (fadd (fdiv 1 RA) (fdiv 1 RB)) (fdiv 1 RC)))
                (fdiv Vbias RB))
          RA"

text \<open>\<open>int V = Vin >= 0 ? (int) (Vin + 0.5) : (int) (Vin - 0.5);\<close>\<close>

definition rounded_volts :: "rat \<Rightarrow> int" where
  "rounded_volts Vin =
     (if 0 \<le> Vin then float_to_int (fadd Vin (1 / 2))
      else float_to_int (fsub Vin (1 / 2)))"

definition volts :: "16 word \<Rightarrow> int" where
  "volts aval = rounded_volts (Vin_of (Vout_of aval))"

text \<open>
  \<open>read_voltage p\<close>, with \<open>aval\<close> the value \<open>analogRead\<close> returns, as stored in a
  \<open>uint16_t\<close>. \<open>V\<close> is an \<open>int\<close> of 16 bits, which the conversion from \<open>float\<close>
  never overflows (\<open>volts_int_range\<close> below). Storing \<open>V\<close> into an \<open>int8_t\<close> keeps its
  low 8 bits. A store outside the array is undefined in C: the model returns \<open>None\<close>.
\<close>

definition read_voltage :: "line_ptr \<Rightarrow> 16 word \<Rightarrow> state \<Rightarrow> (int \<times> state) option" where
  "read_voltage p aval s =
     (let l = deref p s;
          s1 = s\<lparr>trace := trace s @ [AnalogRead (port l)]\<rparr>;
          V = volts aval;
          s2 = s1\<lparr>count := count s1 + 1\<rparr>
      in if 0 \<le> nextslot l \<and> nextslot l < int NUM_HISTORY
              \<and> nat (nextslot l) < length (history l)
         then
           let l1 = l\<lparr>history := (history l)[nat (nextslot l) := word_of_int V]\<rparr>;
               l2 = l1\<lparr>nextslot := nextslot l1 + 1\<rparr>;
               l3 = (if nextslot l2 \<ge> int NUM_HISTORY then l2\<lparr>nextslot := 0\<rparr> else l2)
           in Some (V, assign p l3 s2)
         else None)"

section \<open>Line-state classifier\<close>

text \<open>
  Reading \<open>history[ndx]\<close> as an \<open>int\<close>; outside the array the read is undefined
  and the model returns \<open>None\<close>.
\<close>

definition hist_at :: "pbx_line_t \<Rightarrow> int \<Rightarrow> int option" where
  "hist_at l ndx =
     (if 0 \<le> ndx \<and> ndx < int NUM_HISTORY \<and> nat ndx < length (history l)
      then Some (sint (history l ! nat ndx)) else None)"

text \<open>
  The \<open>for\<close> loop of \<open>getlinestate\<close>: the first argument is the number of
  iterations still to run, the triple holds \<open>onhook\<close>, \<open>offhook\<close> and
  \<open>ringing_samples\<close>.
\<close>

fun scan_samples :: "nat \<Rightarrow> int \<Rightarrow> bool \<times> bool \<times> int \<Rightarrow> state \<Rightarrow> (bool \<times> bool \<times> int) option" where
  "scan_samples 0 ndx acc s = Some acc"
| "scan_samples (Suc n) ndx (onhook, offhook, ringing_samples) s =
     (let ndx1 = ndx - 1;
          ndx2 = (if ndx1 < 0 then int NUM_HISTORY - 1 else ndx1)
      in do {
        t \<leftarrow> hist_at (pbx_tip s) ndx2;
        r \<leftarrow> hist_at (pbx_ring s) ndx2;
        let vdelta = t - r;
        scan_samples n ndx2
          (if vdelta < 35 \<or> vdelta > 60 then False else onhook,
           if vdelta < - 10 \<or> vdelta > 20 then False else offhook,
           if vdelta < - 70 \<or> vdelta > 70 then ringing_samples + 1 else ringing_samples)
          s
      })"

text \<open>The function returns its decision and the globals as it leaves them.\<close>

definition getlinestate :: "state \<Rightarrow> (line_state_t \<times> state) option" where
  "getlinestate s =
     do {
       (onhook, offhook, ringing_samples) \<leftarrow>
         scan_samples NUM_SAMPLES (nextslot (pbx_ring s)) (True, True, 0) s;
       let current_linestate =
         (if onhook then ON_HOOK
          else if offhook then OFF_HOOK
          else if ringing_samples \<ge> 2 then RINGING
          else last_linestate s);
       Some (current_linestate, s)
     }"

section \<open>Actuators\<close>

definition pinMode :: "pin \<Rightarrow> pin_mode \<Rightarrow> state \<Rightarrow> state" where
  "pinMode p m s = s\<lparr>trace := trace s @ [PinMode p m]\<rparr>"

definition digitalWrite :: "pin \<Rightarrow> bool \<Rightarrow> state \<Rightarrow> state" where
  "digitalWrite p v s = s\<lparr>trace := trace s @ [DigitalWrite p v]\<rparr>"

definition delay :: "nat \<Rightarrow> state \<Rightarrow> state" where
  "delay ms s = s\<lparr>trace := trace s @ [Delay ms]\<rparr>"

definition do_connect :: "bool \<Rightarrow> state \<Rightarrow> state" where
  "do_connect connect s =
     (let s1 = digitalWrite DISCONNECT_CO_PBX_TIP (\<not> connect) s;
          s2 = digitalWrite DISCONNECT_CO_PBX_RING (\<not> connect) s1
      in s2\<lparr>connected := connect\<rparr>)"

definition do_shunt :: "bool \<Rightarrow> state \<Rightarrow> state" where
  "do_shunt put_shunt_in s =
     (let s1 = digitalWrite DISCONNECT_SHUNT (\<not> put_shunt_in) s
      in s1\<lparr>shunted := put_shunt_in\<rparr>)"

text \<open>
  \<open>do_disconnect\<close>, which nothing in this version calls. \<open>loop_bad\<close>, the only other
  caller of \<open>do_connect\<close>, is not called either; it waits for commands on the serial
  port and is left out.
\<close>

definition do_disconnect :: "state \<Rightarrow> state" where
  "do_disconnect s =
     (let s1 = digitalWrite LED True s;
          s2 = do_shunt True s1;
          s3 = do_connect False s2;
          s4 = delay 750 s3;
          s5 = do_connect True s4;
          s6 = do_shunt False s5
      in digitalWrite LED False s6)"

section \<open>Startup and the sampling cycle\<close>

text \<open>
  The first \<open>n\<close> iterations of the initial fill; \<open>adc i\<close> holds the two readings of
  iteration \<open>i\<close>, ring first.
\<close>

fun initial_fill :: "nat \<Rightarrow> (nat \<Rightarrow> 16 word \<times> 16 word) \<Rightarrow> state \<Rightarrow> state option" where
  "initial_fill 0 adc s = Some s"
| "initial_fill (Suc n) adc s =
     do {
       s0 \<leftarrow> initial_fill n adc s;
       (_, s1) \<leftarrow> read_voltage PTR_pbx_ring (fst (adc n)) s0;
       (_, s2) \<leftarrow> read_voltage PTR_pbx_tip (snd (adc n)) s1;
       Some s2
     }"

definition setup_proc :: "(nat \<Rightarrow> 16 word \<times> 16 word) \<Rightarrow> state \<Rightarrow> state option" where
  "setup_proc adc s =
     (let s1 = pinMode PBX_LINE_RING INPUT s;
          s2 = pinMode PBX_LINE_TIP INPUT s1;
          s3 = pinMode DISCONNECT_SHUNT OUTPUT s2;
          s4 = pinMode DISCONNECT_CO_PBX_TIP OUTPUT s3;
          s5 = pinMode DISCONNECT_CO_PBX_RING OUTPUT s4;
          s6 = pinMode LED OUTPUT s5;
          s7 = digitalWrite LED False s6;
          s8 = do_shunt False s7;
          s9 = do_connect True s8
      in do {
        s10 \<leftarrow> initial_fill NUM_HISTORY adc s9;
        Some (s10\<lparr>last_linestate := ON_HOOK\<rparr>)
      })"

text \<open>The statements \<open>loop\<close> runs on the edge from on hook to off hook.\<close>

definition apply_capacitor :: "state \<Rightarrow> state" where
  "apply_capacitor s =
     (let s1 = digitalWrite LED True s;
          s2 = do_shunt True s1;
          s3 = delay 750 s2;
          s4 = do_shunt False s3
      in digitalWrite LED False s4)"

text \<open>One call of \<open>loop\<close>; the pair holds its two readings, ring first.\<close>

definition loop :: "16 word \<times> 16 word \<Rightarrow> state \<Rightarrow> state option" where
  "loop rd s =
     do {
       (_, s1) \<leftarrow> read_voltage PTR_pbx_ring (fst rd) s;
       (_, s2) \<leftarrow> read_voltage PTR_pbx_tip (snd rd) s1;
       (new_linestate, s3) \<leftarrow> getlinestate s2;
       let s4 =
         (if new_linestate \<noteq> last_linestate s3
          then
            let s5 = (if last_linestate s3 = ON_HOOK \<and> new_linestate = OFF_HOOK
                      then apply_capacitor s3 else s3)
            in s5\<lparr>last_linestate := new_linestate\<rparr>
          else s3);
       Some (delay SAMPLE_INTERVAL s4)
     }"

text \<open>The Arduino core calls \<open>loop\<close> again and again; here once per pair of readings.\<close>

fun run :: "(16 word \<times> 16 word) list \<Rightarrow> state \<Rightarrow> state option" where
  "run [] s = Some s"
| "run (rd # rds) s = do { s1 \<leftarrow> loop rd s; run rds s1 }"

section \<open>The window the classifier looks at\<close>

text \<open>
  With the cursor at \<open>c\<close>, the \<open>k\<close>-th most recent sample (\<open>k = 0\<close> the newest) is in
  slot \<open>(c - 1 - k) mod NUM_HISTORY\<close>. The deltas of the window are tip minus ring in
  the slots of the \<open>NUM_SAMPLES\<close> most recent samples, newest first. The cursor is that
  of the ring buffer, as in \<open>getlinestate\<close>.
\<close>

definition window_index :: "int \<Rightarrow> nat \<Rightarrow> nat" where
  "window_index c k = nat ((c - 1 - int k) mod int NUM_HISTORY)"

definition delta_at :: "state \<Rightarrow> nat \<Rightarrow> int" where
  "delta_at s i = sint (history (pbx_tip s) ! i) - sint (history (pbx_ring s) ! i)"

definition window_deltas :: "state \<Rightarrow> int list" where
  "window_deltas s =
     map (\<lambda>k. delta_at s (window_index (nextslot (pbx_ring s)) k)) [0..<NUM_SAMPLES]"

text \<open>The three conditions of the decision, on a list of deltas.\<close>

definition on_hook_band :: "int list \<Rightarrow> bool" where
  "on_hook_band ds = list_all (\<lambda>d. 35 \<le> d \<and> d \<le> 60) ds"

definition off_hook_band :: "int list \<Rightarrow> bool" where
  "off_hook_band ds = list_all (\<lambda>d. - 10 \<le> d \<and> d \<le> 20) ds"

definition ringing_count :: "int list \<Rightarrow> nat" where
  "ringing_count ds = length (filter (\<lambda>d. 70 < \<bar>d\<bar>) ds)"

section \<open>The invariant of the history buffers\<close>

text \<open>
  Each cursor is inside its array of \<open>NUM_HISTORY\<close> entries, and the two cursors
  agree. The initial globals satisfy it, and \<open>setup\<close> and \<open>loop\<close> keep it.
\<close>

definition line_ok :: "pbx_line_t \<Rightarrow> bool" where
  "line_ok l \<longleftrightarrow>
     0 \<le> nextslot l \<and> nextslot l < int NUM_HISTORY \<and> length (history l) = NUM_HISTORY"

definition state_ok :: "state \<Rightarrow> bool" where
  "state_ok s \<longleftrightarrow>
     line_ok (pbx_tip s) \<and> line_ok (pbx_ring s)
     \<and> nextslot (pbx_tip s) = nextslot (pbx_ring s)"

text \<open>
  A buffer read from its cursor on, wrapping around at the end of the array: the slot at
  the cursor comes first, the slot just before the cursor last.
\<close>

definition cursor_view :: "pbx_line_t \<Rightarrow> 8 word list" where
  "cursor_view l = rotate (nat (nextslot l)) (history l)"

text \<open>
  What a sequence of pairs of readings stores for each conductor: the rounded voltage of
  each reading, reduced to an \<open>int8_t\<close>, oldest first.
\<close>

definition ring_samples :: "(16 word \<times> 16 word) list \<Rightarrow> 8 word list" where
  "ring_samples rds = map (\<lambda>rd. word_of_int (volts (fst rd))) rds"

definition tip_samples :: "(16 word \<times> 16 word) list \<Rightarrow> 8 word list" where
  "tip_samples rds = map (\<lambda>rd. word_of_int (volts (snd rd))) rds"

section \<open>The steps of a cycle, written out\<close>

text \<open>The two acquisitions that open every cycle, ring first.\<close>

definition take_samples :: "16 word \<times> 16 word \<Rightarrow> state \<Rightarrow> state option" where
  "take_samples rd s =
     do {
       (_, s1) \<leftarrow> read_voltage PTR_pbx_ring (fst rd) s;
       (_, s2) \<leftarrow> read_voltage PTR_pbx_tip (snd rd) s1;
       Some s2
     }"

text \<open>What one acquisition does to a buffer whose cursor is in range.\<close>

definition store_sample :: "int \<Rightarrow> pbx_line_t \<Rightarrow> pbx_line_t" where
  "store_sample V l =
     l\<lparr>history := (history l)[nat (nextslot l) := word_of_int V],
       nextslot := (nextslot l + 1) mod int NUM_HISTORY\<rparr>"

text \<open>A buffer after a sequence of values has been stored through its cursor.\<close>

definition store_all :: "8 word list \<Rightarrow> pbx_line_t \<Rightarrow> pbx_line_t" where
  "store_all ws l =
     foldl (\<lambda>l w. l\<lparr>history := (history l)[nat (nextslot l) := w],
                     nextslot := (nextslot l + 1) mod int NUM_HISTORY\<rparr>) l ws"

text \<open>The globals after the two acquisitions of a cycle.\<close>

definition sampled :: "16 word \<times> 16 word \<Rightarrow> state \<Rightarrow> state" where
  "sampled rd s =
     s\<lparr>pbx_ring := store_sample (volts (fst rd)) (pbx_ring s),
       pbx_tip := store_sample (volts (snd rd)) (pbx_tip s),
       count := count s + 2,
       trace := trace s @ [AnalogRead (port (pbx_ring s)), AnalogRead (port (pbx_tip s))]\<rparr>"

text \<open>The \<open>if\<close> statement of \<open>loop\<close> that follows the classifier.\<close>

definition decided :: "line_state_t \<Rightarrow> state \<Rightarrow> state" where
  "decided new s =
     (if new \<noteq> last_linestate s
      then (if last_linestate s = ON_HOOK \<and> new = OFF_HOOK then apply_capacitor s else s)
             \<lparr>last_linestate := new\<rparr>
      else s)"

text \<open>The globals when \<open>setup\<close> reaches its initial fill.\<close>

definition before_fill :: state where
  "before_fill =
     do_connect True (do_shunt False (digitalWrite LED False (pinMode LED OUTPUT
       (pinMode DISCONNECT_CO_PBX_RING OUTPUT (pinMode DISCONNECT_CO_PBX_TIP OUTPUT
         (pinMode DISCONNECT_SHUNT OUTPUT (pinMode PBX_LINE_TIP INPUT
           (pinMode PBX_LINE_RING INPUT initial_state))))))))"

text \<open>The globals after the first \<open>n\<close> iterations of the initial fill.\<close>

fun filled :: "nat \<Rightarrow> (nat \<Rightarrow> 16 word \<times> 16 word) \<Rightarrow> state \<Rightarrow> state" where
  "filled 0 adc s = s"
| "filled (Suc n) adc s = sampled (adc n) (filled n adc s)"

section \<open>Reading the trace\<close>

text \<open>
  The actuation sequence as the specification lists it: busy indicator on, conditioning
  element engaged, dwell, conditioning element disengaged, busy indicator off.
\<close>

definition actuation_events :: "event list" where
  "actuation_events =
     [DigitalWrite LED True, DigitalWrite DISCONNECT_SHUNT False, Delay 750,
      DigitalWrite DISCONNECT_SHUNT True, DigitalWrite LED False]"

text \<open>
  The milliseconds of delay in a sequence of calls during which the conditioning element
  is across the line. The pin \<open>DISCONNECT_SHUNT\<close> is high to disconnect; the first
  argument tells whether the element is engaged before the first call.
\<close>

fun engaged_time :: "bool \<Rightarrow> event list \<Rightarrow> nat" where
  "engaged_time e [] = 0"
| "engaged_time e (DigitalWrite DISCONNECT_SHUNT v # es) = engaged_time (\<not> v) es"
| "engaged_time e (Delay ms # es) = (if e then ms else 0) + engaged_time e es"
| "engaged_time e (_ # es) = engaged_time e es"

text \<open>The writes to the two pins that drive the relays between CO line and PBX.\<close>

definition co_pbx_writes :: "event list \<Rightarrow> event list" where
  "co_pbx_writes es =
     filter (\<lambda>e. case e of
                  DigitalWrite p v \<Rightarrow> p = DISCONNECT_CO_PBX_TIP \<or> p = DISCONNECT_CO_PBX_RING
                | _ \<Rightarrow> False) es"

section \<open>Example states\<close>

text \<open>
  A state whose two history buffers hold one value each, with the cursors at 0 and a
  chosen held line state.
\<close>

definition flat_state :: "int \<Rightarrow> int \<Rightarrow> line_state_t \<Rightarrow> state" where
  "flat_state t r l =
     initial_state\<lparr>last_linestate := l,
       pbx_tip := (pbx_tip initial_state)\<lparr>history := replicate NUM_HISTORY (word_of_int t)\<rparr>,
       pbx_ring := (pbx_ring initial_state)\<lparr>history := replicate NUM_HISTORY (word_of_int r)\<rparr>\<rparr>"

section \<open>The classifier decides from the window\<close>

lemma NUM_HISTORY_val: "NUM_HISTORY = 400"
  by (simp add: NUM_HISTORY_def SAMPLE_INTERVAL_def)

lemma NUM_SAMPLES_val: "NUM_SAMPLES = 10"
  by (simp add: NUM_SAMPLES_def SAMPLE_INTERVAL_def)

lemma scan_samples_window:
  assumes "length (history (pbx_tip s)) = NUM_HISTORY" "length (history (pbx_ring s)) = NUM_HISTORY"
    and "0 \<le> c" "c < int NUM_HISTORY"
  shows "scan_samples n c (a, b, r) s =
     Some (a \<and> on_hook_band (map (\<lambda>k. delta_at s (window_index c k)) [0..<n]),
           b \<and> off_hook_band (map (\<lambda>k. delta_at s (window_index c k)) [0..<n]),
           r + int (ringing_count (map (\<lambda>k. delta_at s (window_index c k)) [0..<n])))"
  using assms(3,4)
proof (induction n arbitrary: c a b r)
  case 0
  then show ?case by (simp add: on_hook_band_def off_hook_band_def ringing_count_def)
next
  case (Suc n)
  define c2 where "c2 = (if c - 1 < 0 then int NUM_HISTORY - 1 else c - 1)"
  have c2: "0 \<le> c2" "c2 < int NUM_HISTORY" using Suc.prems by (auto simp: c2_def)
  have c2mod: "c2 = (c - 1) mod int NUM_HISTORY"
  proof (cases "c = 0")
    case True
    then show ?thesis by (simp add: c2_def NUM_HISTORY_val)
  next
    case False
    then show ?thesis using Suc.prems by (simp add: c2_def)
  qed
  have w0: "window_index c 0 = nat c2" by (simp add: window_index_def c2mod)
  have wS: "window_index c (Suc k) = window_index c2 k" for k
    unfolding window_index_def c2mod
    by (smt (verit) mod_diff_left_eq of_nat_Suc)
  have split: "map (\<lambda>k. delta_at s (window_index c k)) [0..<Suc n]
      = delta_at s (nat c2) # map (\<lambda>k. delta_at s (window_index c2 k)) [0..<n]"
    by (simp only: upt_conv_Cons[of 0 "Suc n"] list.map w0 map_Suc_upt[symmetric] map_map o_def wS)
  have ht: "hist_at (pbx_tip s) c2 = Some (sint (history (pbx_tip s) ! nat c2))"
    using c2 assms(1) by (simp add: hist_at_def)
  have hr: "hist_at (pbx_ring s) c2 = Some (sint (history (pbx_ring s) ! nat c2))"
    using c2 assms(2) by (simp add: hist_at_def)
  define d where "d = delta_at s (nat c2)"
  have step: "scan_samples (Suc n) c (a, b, r) s =
      scan_samples n c2
        (if d < 35 \<or> d > 60 then False else a,
         if d < - 10 \<or> d > 20 then False else b,
         if d < - 70 \<or> d > 70 then r + 1 else r) s"
    using ht hr unfolding c2_def d_def delta_at_def by (simp add: Let_def)
  show ?case
    unfolding step split Suc.IH[OF c2] d_def[symmetric]
    by (auto simp: on_hook_band_def off_hook_band_def ringing_count_def)
qed

lemma getlinestate_window:
  assumes "state_ok s"
  shows "getlinestate s =
     Some (if on_hook_band (window_deltas s) then ON_HOOK
           else if off_hook_band (window_deltas s) then OFF_HOOK
           else if 2 \<le> ringing_count (window_deltas s) then RINGING
           else last_linestate s, s)"
proof -
  have len: "length (history (pbx_tip s)) = NUM_HISTORY" "length (history (pbx_ring s)) = NUM_HISTORY"
    and c: "0 \<le> nextslot (pbx_ring s)" "nextslot (pbx_ring s) < int NUM_HISTORY"
    using assms by (simp_all add: state_ok_def line_ok_def)
  show ?thesis
    unfolding getlinestate_def scan_samples_window[OF len c] window_deltas_def[symmetric]
    by simp
qed

lemma window_deltas_length: "length (window_deltas s) = NUM_SAMPLES"
  by (simp add: window_deltas_def)

lemma window_deltas_nonempty: "window_deltas s \<noteq> []"
  using window_deltas_length[of s] by (auto simp: NUM_SAMPLES_val)

lemma window_index_less: "window_index c k < NUM_HISTORY"
  by (simp add: window_index_def NUM_HISTORY_val nat_less_iff)

lemma flat_state_ok: "state_ok (flat_state t r l)"
  by (simp add: flat_state_def state_ok_def line_ok_def initial_state_def NUM_HISTORY_val)

lemma flat_state_deltas:
  "window_deltas (flat_state t r l) =
     replicate NUM_SAMPLES (sint (word_of_int t :: 8 word) - sint (word_of_int r :: 8 word))"
  by (simp add: window_deltas_def delta_at_def flat_state_def initial_state_def
      window_index_less map_replicate_const)

lemma flat_state_last: "last_linestate (flat_state t r l) = l"
  by (simp add: flat_state_def)

text \<open>
  Claim C2. When every delta of the window (tip minus ring, over the \<open>NUM_SAMPLES\<close>
  most recent slots) lies in the band from 35 to 60, bounds included, \<open>getlinestate\<close>
  returns \<open>ON_HOOK\<close>, whatever the held line state is.
\<close>

theorem getlinestate_on_hook:
  assumes "state_ok s" and "\<forall>d \<in> set (window_deltas s). 35 \<le> d \<and> d \<le> 60"
  shows "getlinestate s = Some (ON_HOOK, s)"
  using assms(2) by (simp add: getlinestate_window[OF assms(1)] on_hook_band_def list_all_iff)

theorem getlinestate_on_hook_witness:
  "state_ok (flat_state 45 0 RINGING)
   \<and> window_deltas (flat_state 45 0 RINGING) = replicate 10 45
   \<and> getlinestate (flat_state 45 0 RINGING) = Some (ON_HOOK, flat_state 45 0 RINGING)"
  using getlinestate_on_hook[of "flat_state 45 0 RINGING"]
  by (simp add: flat_state_ok flat_state_deltas NUM_SAMPLES_val)

text \<open>
  Claim C3. When every delta of the window lies in the band from -10 to 20, bounds
  included, \<open>getlinestate\<close> returns \<open>OFF_HOOK\<close>, whatever the held line state is:
  the window is not empty and the two bands are disjoint, so the on-hook test fails.
\<close>

theorem getlinestate_off_hook:
  assumes "state_ok s" and "\<forall>d \<in> set (window_deltas s). - 10 \<le> d \<and> d \<le> 20"
  shows "getlinestate s = Some (OFF_HOOK, s)"
proof -
  obtain d where d: "d \<in> set (window_deltas s)"
    using window_deltas_nonempty[of s] by (cases "window_deltas s") auto
  with assms(2) have "d \<le> 20" by blast
  then have "\<not> (35 \<le> d \<and> d \<le> 60)" by simp
  with d have no: "\<not> on_hook_band (window_deltas s)"
    unfolding on_hook_band_def list_all_iff by blast
  have yes: "off_hook_band (window_deltas s)"
    using assms(2) unfolding off_hook_band_def list_all_iff .
  show ?thesis
    by (simp add: getlinestate_window[OF assms(1)] no yes)
qed

theorem getlinestate_off_hook_witness:
  "state_ok (flat_state (- 20) (- 25) ON_HOOK)
   \<and> window_deltas (flat_state (- 20) (- 25) ON_HOOK) = replicate 10 5
   \<and> getlinestate (flat_state (- 20) (- 25) ON_HOOK)
       = Some (OFF_HOOK, flat_state (- 20) (- 25) ON_HOOK)"
  using getlinestate_off_hook[of "flat_state (- 20) (- 25) ON_HOOK"]
  by (simp add: flat_state_ok flat_state_deltas NUM_SAMPLES_val)

text \<open>
  Claim C4. When at least 2 deltas of the window have a magnitude above 70 and neither
  band condition holds for the whole window, \<open>getlinestate\<close> returns \<open>RINGING\<close>.
\<close>

theorem getlinestate_ringing:
  assumes "state_ok s"
    and "2 \<le> length (filter (\<lambda>d. 70 < \<bar>d\<bar>) (window_deltas s))"
    and "\<not> (\<forall>d \<in> set (window_deltas s). 35 \<le> d \<and> d \<le> 60)"
    and "\<not> (\<forall>d \<in> set (window_deltas s). - 10 \<le> d \<and> d \<le> 20)"
  shows "getlinestate s = Some (RINGING, s)"
proof -
  have no_on: "\<not> on_hook_band (window_deltas s)"
    using assms(3) unfolding on_hook_band_def list_all_iff .
  have no_off: "\<not> off_hook_band (window_deltas s)"
    using assms(4) unfolding off_hook_band_def list_all_iff .
  have ring: "2 \<le> ringing_count (window_deltas s)"
    using assms(2) unfolding ringing_count_def .
  show ?thesis
    by (simp add: getlinestate_window[OF assms(1)] no_on no_off ring)
qed

theorem getlinestate_ringing_witness:
  "state_ok (flat_state 40 (- 50) ON_HOOK)
   \<and> 2 \<le> length (filter (\<lambda>d. 70 < \<bar>d\<bar>) (window_deltas (flat_state 40 (- 50) ON_HOOK)))
   \<and> \<not> (\<forall>d \<in> set (window_deltas (flat_state 40 (- 50) ON_HOOK)). 35 \<le> d \<and> d \<le> 60)
   \<and> \<not> (\<forall>d \<in> set (window_deltas (flat_state 40 (- 50) ON_HOOK)). - 10 \<le> d \<and> d \<le> 20)
   \<and> getlinestate (flat_state 40 (- 50) ON_HOOK) = Some (RINGING, flat_state 40 (- 50) ON_HOOK)"
  using getlinestate_ringing[of "flat_state 40 (- 50) ON_HOOK"]
  by (simp add: flat_state_ok flat_state_deltas NUM_SAMPLES_val)

text \<open>
  Claim C5. When not every delta is in the on-hook band, not every delta is in the
  off-hook band, and fewer than 2 deltas have a magnitude above 70, \<open>getlinestate\<close>
  returns the held line state.
\<close>

theorem getlinestate_keeps_state:
  assumes "state_ok s"
    and "\<not> (\<forall>d \<in> set (window_deltas s). 35 \<le> d \<and> d \<le> 60)"
    and "\<not> (\<forall>d \<in> set (window_deltas s). - 10 \<le> d \<and> d \<le> 20)"
    and "length (filter (\<lambda>d. 70 < \<bar>d\<bar>) (window_deltas s)) < 2"
  shows "getlinestate s = Some (last_linestate s, s)"
proof -
  have no_on: "\<not> on_hook_band (window_deltas s)"
    using assms(2) unfolding on_hook_band_def list_all_iff .
  have no_off: "\<not> off_hook_band (window_deltas s)"
    using assms(3) unfolding off_hook_band_def list_all_iff .
  have no_ring: "\<not> 2 \<le> ringing_count (window_deltas s)"
    using assms(4) unfolding ringing_count_def by simp
  show ?thesis
    by (simp add: getlinestate_window[OF assms(1)] no_on no_off no_ring)
qed

theorem getlinestate_keeps_state_witness:
  "state_ok (flat_state 30 0 RINGING)
   \<and> \<not> (\<forall>d \<in> set (window_deltas (flat_state 30 0 RINGING)). 35 \<le> d \<and> d \<le> 60)
   \<and> \<not> (\<forall>d \<in> set (window_deltas (flat_state 30 0 RINGING)). - 10 \<le> d \<and> d \<le> 20)
   \<and> length (filter (\<lambda>d. 70 < \<bar>d\<bar>) (window_deltas (flat_state 30 0 RINGING))) < 2
   \<and> getlinestate (flat_state 30 0 RINGING) = Some (RINGING, flat_state 30 0 RINGING)
   \<and> last_linestate (flat_state 30 0 RINGING) = RINGING"
  using getlinestate_keeps_state[of "flat_state 30 0 RINGING"]
  by (simp add: flat_state_ok flat_state_deltas NUM_SAMPLES_val flat_state_last)

section \<open>Acquisition and the cycle\<close>

lemma advance_mod:
  assumes "0 \<le> c" "c < int NUM_HISTORY"
  shows "(if c + 1 \<ge> int NUM_HISTORY then 0 else c + 1) = (c + 1) mod int NUM_HISTORY"
proof (cases "c = 399")
  case True
  then show ?thesis by (simp add: NUM_HISTORY_val)
next
  case False
  then show ?thesis using assms by (simp add: NUM_HISTORY_val)
qed

lemma read_voltage_Some:
  assumes "line_ok (deref p s)"
  shows "read_voltage p aval s =
     Some (volts aval,
           assign p (store_sample (volts aval) (deref p s))
             (s\<lparr>trace := trace s @ [AnalogRead (port (deref p s))], count := count s + 1\<rparr>))"
proof -
  have c: "0 \<le> nextslot (deref p s)" "nextslot (deref p s) < int NUM_HISTORY"
    and len: "length (history (deref p s)) = NUM_HISTORY"
    using assms by (simp_all add: line_ok_def)
  have inb: "nat (nextslot (deref p s)) < length (history (deref p s))"
    using c len by simp
  show ?thesis
    unfolding read_voltage_def Let_def store_sample_def advance_mod[OF c, symmetric]
    using c inb by (cases p) simp_all
qed

lemma line_ok_store_sample: "line_ok l \<Longrightarrow> line_ok (store_sample V l)"
  by (simp add: line_ok_def store_sample_def NUM_HISTORY_val)

lemma take_samples_Some:
  assumes "state_ok s"
  shows "take_samples rd s = Some (sampled rd s)"
proof -
  have r: "line_ok (deref PTR_pbx_ring s)" and t: "line_ok (pbx_tip s)"
    using assms by (simp_all add: state_ok_def)
  show ?thesis
    unfolding take_samples_def read_voltage_Some[OF r]
    using t by (simp add: read_voltage_Some sampled_def)
qed

lemma state_ok_sampled: "state_ok s \<Longrightarrow> state_ok (sampled rd s)"
  by (simp add: state_ok_def sampled_def line_ok_store_sample) (simp add: store_sample_def)

lemma sampled_fields [simp]:
  "last_linestate (sampled rd s) = last_linestate s"
  "connected (sampled rd s) = connected s"
  "shunted (sampled rd s) = shunted s"
  "trace (sampled rd s) = trace s @ [AnalogRead (port (pbx_ring s)), AnalogRead (port (pbx_tip s))]"
  "count (sampled rd s) = count s + 2"
  "pbx_ring (sampled rd s) = store_sample (volts (fst rd)) (pbx_ring s)"
  "pbx_tip (sampled rd s) = store_sample (volts (snd rd)) (pbx_tip s)"
  by (simp_all add: sampled_def)

lemma loop_unfold:
  assumes "take_samples rd s = Some s2" and "getlinestate s2 = Some (new, s2)"
  shows "loop rd s = Some (delay SAMPLE_INTERVAL (decided new s2))"
  using assms unfolding loop_def take_samples_def decided_def
  by (auto simp: Let_def split: Option.bind_splits prod.splits)

lemma apply_capacitor_fields [simp]:
  "trace (apply_capacitor s) = trace s @ actuation_events"
  "shunted (apply_capacitor s) = False"
  "connected (apply_capacitor s) = connected s"
  "pbx_ring (apply_capacitor s) = pbx_ring s"
  "pbx_tip (apply_capacitor s) = pbx_tip s"
  "count (apply_capacitor s) = count s"
  "last_linestate (apply_capacitor s) = last_linestate s"
  by (simp_all add: apply_capacitor_def actuation_events_def digitalWrite_def do_shunt_def
      delay_def Let_def)

lemma delay_fields [simp]:
  "trace (delay ms s) = trace s @ [Delay ms]"
  "shunted (delay ms s) = shunted s"
  "connected (delay ms s) = connected s"
  "pbx_ring (delay ms s) = pbx_ring s"
  "pbx_tip (delay ms s) = pbx_tip s"
  "count (delay ms s) = count s"
  "last_linestate (delay ms s) = last_linestate s"
  by (simp_all add: delay_def)

lemma decided_fields [simp]:
  "last_linestate (decided new s) = new"
  "connected (decided new s) = connected s"
  "pbx_ring (decided new s) = pbx_ring s"
  "pbx_tip (decided new s) = pbx_tip s"
  "count (decided new s) = count s"
  "trace (decided new s) =
     trace s @ (if last_linestate s = ON_HOOK \<and> new = OFF_HOOK then actuation_events else [])"
  by (auto simp: decided_def)

lemma decided_shunted: "\<not> shunted s \<Longrightarrow> \<not> shunted (decided new s)"
  by (simp add: decided_def)

lemma getlinestate_total:
  assumes "state_ok s"
  shows "\<exists>new. getlinestate s = Some (new, s)"
  by (simp add: getlinestate_window[OF assms])

text \<open>
  Claim C1. In a cycle of \<open>loop\<close>, after the two acquisitions and the classifier's
  decision \<open>new\<close>, the actuation sequence is performed exactly when the held line
  state is \<open>ON_HOOK\<close> and \<open>new\<close> is \<open>OFF_HOOK\<close>; for every other pair nothing
  comes between the acquisitions and the closing delay. In every case the held line
  state is \<open>new\<close> afterwards.
\<close>

theorem loop_actuates_on_edge_only:
  assumes "state_ok s"
  shows "\<exists>s2 new s'.
           take_samples rd s = Some s2 \<and> getlinestate s2 = Some (new, s2)
         \<and> loop rd s = Some s'
         \<and> last_linestate s' = new
         \<and> trace s' = trace s2
              @ (if last_linestate s = ON_HOOK \<and> new = OFF_HOOK then actuation_events else [])
              @ [Delay SAMPLE_INTERVAL]"
proof -
  have ts: "take_samples rd s = Some (sampled rd s)"
    by (rule take_samples_Some[OF assms])
  obtain new where g: "getlinestate (sampled rd s) = Some (new, sampled rd s)"
    using getlinestate_total[OF state_ok_sampled[OF assms]] by blast
  show ?thesis
    using ts g loop_unfold[OF ts g] by simp
qed

lemma initial_samples_zero:
  "window_deltas (sampled (0, 0) initial_state) = replicate NUM_SAMPLES 0"
  by (simp add: window_deltas_def delta_at_def sampled_def store_sample_def initial_state_def
      map_replicate_const)

lemma initial_state_ok: "state_ok initial_state"
  by (simp add: state_ok_def line_ok_def initial_state_def NUM_HISTORY_val)

theorem loop_actuates_on_edge_only_witness:
  "state_ok initial_state
   \<and> (\<exists>s'. loop (0, 0) initial_state = Some s'
        \<and> last_linestate s' = OFF_HOOK
        \<and> trace s' = [AnalogRead PBX_LINE_RING, AnalogRead PBX_LINE_TIP,
                       DigitalWrite LED True, DigitalWrite DISCONNECT_SHUNT False, Delay 750,
                       DigitalWrite DISCONNECT_SHUNT True, DigitalWrite LED False, Delay 5])"
proof -
  have ok: "state_ok initial_state" by (rule initial_state_ok)
  have ts: "take_samples (0, 0) initial_state = Some (sampled (0, 0) initial_state)"
    by (rule take_samples_Some[OF ok])
  have g: "getlinestate (sampled (0, 0) initial_state) = Some (OFF_HOOK, sampled (0, 0) initial_state)"
    by (simp add: getlinestate_window[OF state_ok_sampled[OF ok]] initial_samples_zero
        on_hook_band_def off_hook_band_def NUM_SAMPLES_val list_all_iff)
  have i: "last_linestate initial_state = ON_HOOK" "trace initial_state = []"
    "port (pbx_ring initial_state) = PBX_LINE_RING" "port (pbx_tip initial_state) = PBX_LINE_TIP"
    by (simp_all add: initial_state_def)
  from loop_actuates_on_edge_only[OF ok, of "(0, 0)"] ts g
  show ?thesis
    by (auto simp: ok i actuation_events_def SAMPLE_INTERVAL_def)
qed

text \<open>
  Claim C6. On the edge from \<open>ON_HOOK\<close> to \<open>OFF_HOOK\<close> the cycle makes, after its two
  acquisitions, exactly these calls in this order: indicator on, conditioning element
  engaged, one delay of 750 ms, conditioning element disengaged, indicator off, and then
  the closing delay of the cycle. Nothing is acquired in between: both buffers, both
  cursors and the acquisition counter are those left by the two acquisitions. Afterwards
  the held line state is \<open>OFF_HOOK\<close> and the element is out; within the cycle it is
  engaged for the 750 ms of the dwell and for no other delay.
\<close>

theorem actuation_sequence_order:
  assumes "state_ok s" and "last_linestate s = ON_HOOK"
    and "take_samples rd s = Some s2" and "getlinestate s2 = Some (OFF_HOOK, s2)"
  shows "\<exists>s'. loop rd s = Some s'
           \<and> trace s' = trace s2 @
               [DigitalWrite LED True, DigitalWrite DISCONNECT_SHUNT False, Delay 750,
                DigitalWrite DISCONNECT_SHUNT True, DigitalWrite LED False,
                Delay SAMPLE_INTERVAL]
           \<and> last_linestate s' = OFF_HOOK
           \<and> \<not> shunted s'
           \<and> pbx_tip s' = pbx_tip s2 \<and> pbx_ring s' = pbx_ring s2 \<and> count s' = count s2
           \<and> engaged_time (shunted s) (drop (length (trace s)) (trace s')) = 750"
proof -
  have s2: "s2 = sampled rd s"
    using take_samples_Some[OF assms(1), of rd] assms(3) by simp
  have l: "last_linestate s2 = ON_HOOK"
    by (simp add: s2 assms(2))
  have d: "decided OFF_HOOK s2 = (apply_capacitor s2)\<lparr>last_linestate := OFF_HOOK\<rparr>"
    by (simp add: decided_def l)
  show ?thesis
    unfolding loop_unfold[OF assms(3,4)] d
    by (simp add: s2 actuation_events_def)
qed

theorem actuation_sequence_order_witness:
  "state_ok initial_state \<and> last_linestate initial_state = ON_HOOK
   \<and> take_samples (0, 0) initial_state = Some (sampled (0, 0) initial_state)
   \<and> getlinestate (sampled (0, 0) initial_state) = Some (OFF_HOOK, sampled (0, 0) initial_state)
   \<and> (\<exists>s'. loop (0, 0) initial_state = Some s'
        \<and> trace s' = [AnalogRead PBX_LINE_RING, AnalogRead PBX_LINE_TIP,
               DigitalWrite LED True, DigitalWrite DISCONNECT_SHUNT False, Delay 750,
               DigitalWrite DISCONNECT_SHUNT True, DigitalWrite LED False, Delay 5]
        \<and> last_linestate s' = OFF_HOOK \<and> \<not> shunted s')"
proof -
  have ok: "state_ok initial_state" by (rule initial_state_ok)
  have ts: "take_samples (0, 0) initial_state = Some (sampled (0, 0) initial_state)"
    by (rule take_samples_Some[OF ok])
  have g: "getlinestate (sampled (0, 0) initial_state) = Some (OFF_HOOK, sampled (0, 0) initial_state)"
    by (simp add: getlinestate_window[OF state_ok_sampled[OF ok]] initial_samples_zero
        on_hook_band_def off_hook_band_def NUM_SAMPLES_val list_all_iff)
  have i: "last_linestate initial_state = ON_HOOK" "trace initial_state = []"
    "port (pbx_ring initial_state) = PBX_LINE_RING" "port (pbx_tip initial_state) = PBX_LINE_TIP"
    by (simp_all add: initial_state_def)
  from actuation_sequence_order[OF ok i(1) ts g]
  show ?thesis
    by (auto simp: ok i ts g SAMPLE_INTERVAL_def)
qed

text \<open>
  Claim C9. \<open>getlinestate\<close> leaves every global as it found it (buffers, cursors,
  held line state, \<open>connected\<close>, \<open>shunted\<close>, and every other field), and its
  decision is determined by the deltas of the window and the held line state: two states
  that agree on these get the same decision.
\<close>

theorem getlinestate_no_side_effect:
  "(\<forall>r s'. getlinestate s = Some (r, s') \<longrightarrow> s' = s)
   \<and> (state_ok s \<longrightarrow> (\<exists>r. getlinestate s = Some (r, s)
         \<and> (\<forall>t. state_ok t \<and> window_deltas t = window_deltas s
                  \<and> last_linestate t = last_linestate s
               \<longrightarrow> getlinestate t = Some (r, t))))"
proof (intro conjI allI impI)
  fix r s'
  assume "getlinestate s = Some (r, s')"
  then show "s' = s"
    by (auto simp: getlinestate_def split: Option.bind_splits prod.splits)
next
  assume ok: "state_ok s"
  show "\<exists>r. getlinestate s = Some (r, s)
         \<and> (\<forall>t. state_ok t \<and> window_deltas t = window_deltas s
                  \<and> last_linestate t = last_linestate s
               \<longrightarrow> getlinestate t = Some (r, t))"
    by (simp add: getlinestate_window[OF ok] getlinestate_window)
qed

theorem getlinestate_no_side_effect_witness:
  "getlinestate (flat_state 45 0 RINGING) = Some (ON_HOOK, flat_state 45 0 RINGING)
   \<and> state_ok (flat_state 45 0 RINGING) \<and> state_ok (flat_state 50 5 RINGING)
   \<and> window_deltas (flat_state 50 5 RINGING) = window_deltas (flat_state 45 0 RINGING)
   \<and> last_linestate (flat_state 50 5 RINGING) = last_linestate (flat_state 45 0 RINGING)
   \<and> getlinestate (flat_state 50 5 RINGING) = Some (ON_HOOK, flat_state 50 5 RINGING)"
proof -
  have a: "getlinestate (flat_state 45 0 RINGING) = Some (ON_HOOK, flat_state 45 0 RINGING)"
    by (simp add: getlinestate_window[OF flat_state_ok] flat_state_deltas on_hook_band_def
        NUM_SAMPLES_val list_all_iff)
  have w: "window_deltas (flat_state 50 5 RINGING) = window_deltas (flat_state 45 0 RINGING)"
    by (simp add: flat_state_deltas)
  have l: "last_linestate (flat_state 50 5 RINGING) = last_linestate (flat_state 45 0 RINGING)"
    by (simp add: flat_state_last)
  from getlinestate_no_side_effect[of "flat_state 45 0 RINGING"] a w l
  show ?thesis
    by (auto simp: flat_state_ok)
qed

lemma store_all_Nil [simp]: "store_all [] l = l"
  by (simp add: store_all_def)

lemma store_all_snoc:
  "store_all (ws @ [word_of_int V]) l = store_sample V (store_all ws l)"
  by (simp add: store_all_def store_sample_def)

lemma co_pbx_writes_append [simp]:
  "co_pbx_writes (xs @ ys) = co_pbx_writes xs @ co_pbx_writes ys"
  by (simp add: co_pbx_writes_def)

lemma co_pbx_writes_simps [simp]:
  "co_pbx_writes [] = []"
  "co_pbx_writes (AnalogRead p # es) = co_pbx_writes es"
  "co_pbx_writes (Delay ms # es) = co_pbx_writes es"
  "co_pbx_writes (PinMode p m # es) = co_pbx_writes es"
  "co_pbx_writes (DigitalWrite LED v # es) = co_pbx_writes es"
  "co_pbx_writes (DigitalWrite DISCONNECT_SHUNT v # es) = co_pbx_writes es"
  "co_pbx_writes (DigitalWrite DISCONNECT_CO_PBX_TIP v # es)
     = DigitalWrite DISCONNECT_CO_PBX_TIP v # co_pbx_writes es"
  "co_pbx_writes (DigitalWrite DISCONNECT_CO_PBX_RING v # es)
     = DigitalWrite DISCONNECT_CO_PBX_RING v # co_pbx_writes es"
  by (simp_all add: co_pbx_writes_def)

lemma co_pbx_writes_actuation: "co_pbx_writes actuation_events = []"
  by (simp add: actuation_events_def)

lemma initial_fill_Some:
  assumes "state_ok s"
  shows "initial_fill n adc s = Some (filled n adc s) \<and> state_ok (filled n adc s)"
proof (induction n)
  case 0
  show ?case using assms by simp
next
  case (Suc n)
  then have ok: "state_ok (filled n adc s)" and f: "initial_fill n adc s = Some (filled n adc s)"
    by simp_all
  have ts: "take_samples (adc n) (filled n adc s) = Some (sampled (adc n) (filled n adc s))"
    by (rule take_samples_Some[OF ok])
  have "initial_fill (Suc n) adc s = take_samples (adc n) (filled n adc s)"
    by (simp add: f take_samples_def)
  then show ?case
    by (simp add: ts state_ok_sampled[OF ok])
qed

lemma filled_fields [simp]:
  "last_linestate (filled n adc s) = last_linestate s"
  "connected (filled n adc s) = connected s"
  "shunted (filled n adc s) = shunted s"
  "count (filled n adc s) = count s + 2 * of_nat n"
  "co_pbx_writes (trace (filled n adc s)) = co_pbx_writes (trace s)"
  "pbx_ring (filled n adc s) = store_all (ring_samples (map adc [0..<n])) (pbx_ring s)"
  "pbx_tip (filled n adc s) = store_all (tip_samples (map adc [0..<n])) (pbx_tip s)"
  by (induction n; simp add: ring_samples_def tip_samples_def store_all_snoc algebra_simps)+

lemma loop_Some:
  assumes "state_ok s"
  shows "\<exists>new. loop rd s = Some (delay SAMPLE_INTERVAL (decided new (sampled rd s)))"
proof -
  have ts: "take_samples rd s = Some (sampled rd s)"
    by (rule take_samples_Some[OF assms])
  obtain new where g: "getlinestate (sampled rd s) = Some (new, sampled rd s)"
    using getlinestate_total[OF state_ok_sampled[OF assms]] by blast
  show ?thesis
    using loop_unfold[OF ts g] by blast
qed

lemma run_Some:
  assumes "state_ok s"
  shows "\<exists>s' evs. run rds s = Some s' \<and> state_ok s'
           \<and> connected s' = connected s
           \<and> (shunted s' \<longrightarrow> shunted s)
           \<and> trace s' = trace s @ evs \<and> co_pbx_writes evs = []
           \<and> count s' = count s + 2 * of_nat (length rds)
           \<and> pbx_ring s' = store_all (ring_samples rds) (pbx_ring s)
           \<and> pbx_tip s' = store_all (tip_samples rds) (pbx_tip s)"
  using assms
proof (induction rds arbitrary: s)
  case Nil
  then show ?case by (simp add: ring_samples_def tip_samples_def)
next
  case (Cons rd rds)
  obtain new where l: "loop rd s = Some (delay SAMPLE_INTERVAL (decided new (sampled rd s)))"
    using loop_Some[OF Cons.prems] by blast
  define s1 where "s1 = delay SAMPLE_INTERVAL (decided new (sampled rd s))"
  have ok1: "state_ok s1"
    using state_ok_sampled[OF Cons.prems, of rd]
    unfolding s1_def state_ok_def by simp
  obtain s' evs where r: "run rds s1 = Some s'" "state_ok s'" "connected s' = connected s1"
    "shunted s' \<longrightarrow> shunted s1" "trace s' = trace s1 @ evs" "co_pbx_writes evs = []"
    "count s' = count s1 + 2 * of_nat (length rds)"
    "pbx_ring s' = store_all (ring_samples rds) (pbx_ring s1)"
    "pbx_tip s' = store_all (tip_samples rds) (pbx_tip s1)"
    using Cons.IH[OF ok1] by blast
  have sh: "shunted s1 \<longrightarrow> shunted s"
    using decided_shunted[of "sampled rd s" new] by (auto simp: s1_def)
  have tr: "\<exists>evs1. trace s1 = trace s @ evs1 \<and> co_pbx_writes evs1 = []"
    by (simp add: s1_def co_pbx_writes_actuation)
  then obtain evs1 where evs1: "trace s1 = trace s @ evs1" "co_pbx_writes evs1 = []"
    by blast
  have ring: "store_all (ring_samples rds) (pbx_ring s1) = store_all (ring_samples (rd # rds)) (pbx_ring s)"
    by (simp add: s1_def store_all_def ring_samples_def store_sample_def)
  have tip: "store_all (tip_samples rds) (pbx_tip s1) = store_all (tip_samples (rd # rds)) (pbx_tip s)"
    by (simp add: s1_def store_all_def tip_samples_def store_sample_def)
  have cnt: "count s1 + 2 * of_nat (length rds) = count s + 2 * of_nat (length (rd # rds))"
    by (simp add: s1_def algebra_simps)
  have conn: "connected s1 = connected s"
    by (simp add: s1_def)
  have "run (rd # rds) s = Some s'"
    using l r(1) by (simp add: s1_def)
  moreover have "trace s' = trace s @ (evs1 @ evs)" "co_pbx_writes (evs1 @ evs) = []"
    using r(5,6) evs1 by simp_all
  ultimately show ?case
    using r(2,3,4,7,8,9) sh ring tip cnt conn by (metis (no_types, lifting))
qed

lemma before_fill_fields [simp]:
  "pbx_ring before_fill = pbx_ring initial_state"
  "pbx_tip before_fill = pbx_tip initial_state"
  "connected before_fill = True"
  "shunted before_fill = False"
  "count before_fill = 0"
  "co_pbx_writes (trace before_fill)
     = [DigitalWrite DISCONNECT_CO_PBX_TIP False, DigitalWrite DISCONNECT_CO_PBX_RING False]"
  by (simp_all add: before_fill_def do_connect_def do_shunt_def digitalWrite_def pinMode_def
      initial_state_def)

lemma before_fill_ok: "state_ok before_fill"
  using initial_state_ok unfolding state_ok_def by simp

lemma setup_proc_Some:
  "setup_proc adc initial_state
     = Some ((filled NUM_HISTORY adc before_fill)\<lparr>last_linestate := ON_HOOK\<rparr>)"
  using initial_fill_Some[OF before_fill_ok, of NUM_HISTORY adc]
  by (simp add: setup_proc_def Let_def before_fill_def)

lemma do_disconnect_writes:
  "co_pbx_writes (trace (do_disconnect s)) = co_pbx_writes (trace s)
     @ [DigitalWrite DISCONNECT_CO_PBX_TIP True, DigitalWrite DISCONNECT_CO_PBX_RING True,
        DigitalWrite DISCONNECT_CO_PBX_TIP False, DigitalWrite DISCONNECT_CO_PBX_RING False]"
  by (simp add: do_disconnect_def do_connect_def do_shunt_def digitalWrite_def delay_def)

text \<open>
  Claim C10. For every sequence of readings, \<open>setup\<close> completes with \<open>connected\<close>
  true, having written low (connect) to both relay pins; every later run of \<open>loop\<close>
  cycles completes with \<open>connected\<close> still true and without a single write to either
  relay pin, whatever the classifier decides. \<open>do_disconnect\<close>, which neither \<open>setup\<close>
  nor \<open>loop\<close> calls, is where the relays would be opened and closed again.
\<close>

theorem co_pbx_relays_stay_connected:
  "(\<exists>s0 s evs. setup_proc adc initial_state = Some s0
       \<and> connected s0
       \<and> co_pbx_writes (trace s0)
           = [DigitalWrite DISCONNECT_CO_PBX_TIP False, DigitalWrite DISCONNECT_CO_PBX_RING False]
       \<and> run rds s0 = Some s
       \<and> connected s \<and> \<not> shunted s
       \<and> trace s = trace s0 @ evs \<and> co_pbx_writes evs = [])
   \<and> co_pbx_writes (trace (do_disconnect s1)) = co_pbx_writes (trace s1)
       @ [DigitalWrite DISCONNECT_CO_PBX_TIP True, DigitalWrite DISCONNECT_CO_PBX_RING True,
          DigitalWrite DISCONNECT_CO_PBX_TIP False, DigitalWrite DISCONNECT_CO_PBX_RING False]"
proof -
  define s0 where "s0 = (filled NUM_HISTORY adc before_fill)\<lparr>last_linestate := ON_HOOK\<rparr>"
  have su: "setup_proc adc initial_state = Some s0"
    by (simp add: s0_def setup_proc_Some)
  have ok0: "state_ok s0"
    using initial_fill_Some[OF before_fill_ok, of NUM_HISTORY adc]
    unfolding s0_def state_ok_def by simp
  have f0: "connected s0" "\<not> shunted s0"
    "co_pbx_writes (trace s0)
       = [DigitalWrite DISCONNECT_CO_PBX_TIP False, DigitalWrite DISCONNECT_CO_PBX_RING False]"
    by (simp_all add: s0_def)
  obtain s evs where r: "run rds s0 = Some s" "connected s = connected s0"
    "shunted s \<longrightarrow> shunted s0" "trace s = trace s0 @ evs" "co_pbx_writes evs = []"
    using run_Some[OF ok0, of rds] by blast
  have "\<exists>s0 s evs. setup_proc adc initial_state = Some s0
       \<and> connected s0
       \<and> co_pbx_writes (trace s0)
           = [DigitalWrite DISCONNECT_CO_PBX_TIP False, DigitalWrite DISCONNECT_CO_PBX_RING False]
       \<and> run rds s0 = Some s
       \<and> connected s \<and> \<not> shunted s
       \<and> trace s = trace s0 @ evs \<and> co_pbx_writes evs = []"
    using su f0 r by blast
  then show ?thesis
    using do_disconnect_writes[of s1] by blast
qed

theorem co_pbx_relays_stay_connected_witness:
  "(\<exists>s0 s evs. setup_proc (\<lambda>i. (0, 0)) initial_state = Some s0
       \<and> connected s0
       \<and> co_pbx_writes (trace s0)
           = [DigitalWrite DISCONNECT_CO_PBX_TIP False, DigitalWrite DISCONNECT_CO_PBX_RING False]
       \<and> run [(0, 0), (1023, 0)] s0 = Some s
       \<and> connected s \<and> \<not> shunted s
       \<and> trace s = trace s0 @ evs \<and> co_pbx_writes evs = [])
   \<and> co_pbx_writes (trace (do_disconnect initial_state)) = co_pbx_writes (trace initial_state)
       @ [DigitalWrite DISCONNECT_CO_PBX_TIP True, DigitalWrite DISCONNECT_CO_PBX_RING True,
          DigitalWrite DISCONNECT_CO_PBX_TIP False, DigitalWrite DISCONNECT_CO_PBX_RING False]"
  by (rule co_pbx_relays_stay_connected[of "\<lambda>i. (0, 0)" "[(0, 0), (1023, 0)]" initial_state])

section \<open>Rounding to binary32 is monotone\<close>

lemma ilog2_bounds: "0 < n \<Longrightarrow> 2 ^ ilog2 n \<le> n \<and> n < 2 ^ Suc (ilog2 n)"
proof (induction n rule: ilog2.induct)
  case (1 n)
  show ?case
  proof (cases "n < 2")
    case True
    with "1.prems" have "n = 1" by simp
    then show ?thesis by (simp add: ilog2.simps)
  next
    case False
    then have pos: "0 < n div 2" by simp
    have ih: "2 ^ ilog2 (n div 2) \<le> n div 2 \<and> n div 2 < 2 ^ Suc (ilog2 (n div 2))"
      using "1.IH"[OF False pos] .
    have e: "ilog2 n = Suc (ilog2 (n div 2))"
      using False by (subst ilog2.simps) simp
    have "2 * 2 ^ ilog2 (n div 2) \<le> n" "n < 2 * 2 ^ Suc (ilog2 (n div 2))"
      using ih by linarith+
    then show ?thesis unfolding e by simp
  qed
qed

lemma flog2_bounds:
  assumes "0 < x"
  shows "2 powi flog2 x \<le> x \<and> x < 2 powi (flog2 x + 1)"
proof -
  obtain p q where pq: "quotient_of x = (p, q)" by (cases "quotient_of x")
  have q: "0 < q" using quotient_of_denom_pos[OF pq] .
  have x: "x = of_int p / of_int q" using quotient_of_div[OF pq] .
  have p: "0 < p" using assms q unfolding x by (simp add: zero_less_divide_iff)
  define a where "a = ilog2 (nat p)"
  define b where "b = ilog2 (nat q)"
  have pa: "2 ^ a \<le> nat p" "nat p < 2 ^ Suc a"
    using ilog2_bounds[of "nat p"] p by (simp_all add: a_def)
  have qb: "2 ^ b \<le> nat q" "nat q < 2 ^ Suc b"
    using ilog2_bounds[of "nat q"] q by (simp_all add: b_def)
  have pa': "(2::rat) ^ a \<le> of_int p" "of_int p < (2::rat) ^ Suc a"
  proof -
    have "(of_nat (2 ^ a) :: rat) \<le> of_nat (nat p)" using pa(1) by (rule of_nat_mono)
    then show "(2::rat) ^ a \<le> of_int p" using p by simp
    have "(of_nat (nat p) :: rat) < of_nat (2 ^ Suc a)" using pa(2) by (simp only: of_nat_less_iff)
    then show "of_int p < (2::rat) ^ Suc a" using p by simp
  qed
  have qb': "(2::rat) ^ b \<le> of_int q" "of_int q < (2::rat) ^ Suc b"
  proof -
    have "(of_nat (2 ^ b) :: rat) \<le> of_nat (nat q)" using qb(1) by (rule of_nat_mono)
    then show "(2::rat) ^ b \<le> of_int q" using q by simp
    have "(of_nat (nat q) :: rat) < of_nat (2 ^ Suc b)" using qb(2) by (simp only: of_nat_less_iff)
    then show "of_int q < (2::rat) ^ Suc b" using q by simp
  qed
  have qpos: "(0::rat) < of_int q" using q by simp
  have ppos: "(0::rat) < of_int p" using p by simp
  define d where "d = int a - int b"
  have fl: "flog2 x = (if 2 powi d \<le> x then d else d - 1)"
    by (simp add: flog2_def pq a_def b_def d_def Let_def)
  have up: "x < 2 powi (d + 1)"
  proof -
    have "x < 2 ^ Suc a / 2 ^ b"
      unfolding x using pa'(2) qb'(1) qpos ppos
      by (intro frac_less) simp_all
    also have "\<dots> = 2 powi (d + 1)"
      by (simp add: d_def power_int_diff power_int_add)
    finally show ?thesis .
  qed
  have lo: "2 powi (d - 1) \<le> x"
  proof -
    have "2 powi (d - 1) = (2::rat) ^ a / 2 ^ Suc b"
      by (simp add: d_def power_int_diff)
    also have "\<dots> \<le> x"
      unfolding x using pa'(1) qb'(2) qpos ppos
      by (intro frac_le) simp_all
    finally show ?thesis .
  qed
  show ?thesis
  proof (cases "2 powi d \<le> x")
    case True
    then show ?thesis using up by (simp add: fl)
  next
    case False
    then show ?thesis using lo by (simp add: fl)
  qed
qed

lemma flog2_mono:
  assumes "0 < x" "x \<le> y"
  shows "flog2 x \<le> flog2 y"
proof (rule ccontr)
  assume "\<not> flog2 x \<le> flog2 y"
  then have "flog2 y + 1 \<le> flog2 x" by simp
  then have "(2::rat) powi (flog2 y + 1) \<le> 2 powi flog2 x"
    by (intro power_int_increasing) simp_all
  moreover have "y < 2 powi (flog2 y + 1)" using flog2_bounds[of y] assms by simp
  moreover have "2 powi flog2 x \<le> x" using flog2_bounds[OF assms(1)] by simp
  ultimately show False using assms(2) by simp
qed

lemma round_even_near: "\<bar>of_int (round_even y) - y\<bar> \<le> 1 / 2"
proof -
  have "of_int \<lfloor>y\<rfloor> \<le> y" "y < of_int \<lfloor>y\<rfloor> + 1" by linarith+
  then show ?thesis
    unfolding round_even_def Let_def by (auto simp: abs_le_iff)
qed

lemma round_even_of_int: "round_even (of_int n) = n"
  by (simp add: round_even_def)

lemma round_even_mono:
  assumes "y \<le> z"
  shows "round_even y \<le> round_even z"
proof (cases "y = z")
  case True
  then show ?thesis by simp
next
  case False
  with assms have lt: "y < z" by simp
  show ?thesis
  proof (rule ccontr)
    assume "\<not> round_even y \<le> round_even z"
    then have "round_even z + 1 \<le> round_even y" by simp
    then have "(of_int (round_even z + 1) :: rat) \<le> of_int (round_even y)"
      by (simp only: of_int_le_iff)
    then have "(of_int (round_even z) :: rat) + 1 \<le> of_int (round_even y)"
      by simp
    moreover have "of_int (round_even y) \<le> y + 1 / 2"
      using round_even_near[of y] unfolding abs_le_iff by linarith
    moreover have "z - 1 / 2 \<le> of_int (round_even z)"
      using round_even_near[of z] unfolding abs_le_iff by linarith
    ultimately show False using lt by linarith
  qed
qed

lemma f32_ge_grid:
  assumes "of_int N * 2 powi ulp_exp x \<le> x"
  shows "of_int N * 2 powi ulp_exp x \<le> f32 x"
proof (cases "x = 0")
  case True
  then show ?thesis using assms by (simp add: f32_def)
next
  case False
  have u: "(0::rat) < 2 powi ulp_exp x" by simp
  have "of_int N \<le> x / 2 powi ulp_exp x"
    using assms u by (simp add: pos_le_divide_eq)
  then have "round_even (of_int N) \<le> round_even (x / 2 powi ulp_exp x)"
    by (rule round_even_mono)
  then have "N \<le> round_even (x / 2 powi ulp_exp x)"
    by (simp add: round_even_of_int)
  then have "(of_int N :: rat) \<le> of_int (round_even (x / 2 powi ulp_exp x))"
    by (simp only: of_int_le_iff)
  then show ?thesis
    using u False by (simp add: f32_def)
qed

lemma f32_le_grid:
  assumes "x \<le> of_int N * 2 powi ulp_exp x"
  shows "f32 x \<le> of_int N * 2 powi ulp_exp x"
proof (cases "x = 0")
  case True
  then show ?thesis using assms by (simp add: f32_def)
next
  case False
  have u: "(0::rat) < 2 powi ulp_exp x" by simp
  have "x / 2 powi ulp_exp x \<le> of_int N"
    using assms u by (simp add: pos_divide_le_eq)
  then have "round_even (x / 2 powi ulp_exp x) \<le> round_even (of_int N)"
    by (rule round_even_mono)
  then have "round_even (x / 2 powi ulp_exp x) \<le> N"
    by (simp add: round_even_of_int)
  then have "(of_int (round_even (x / 2 powi ulp_exp x)) :: rat) \<le> of_int N"
    by (simp only: of_int_le_iff)
  then show ?thesis
    using u False by (simp add: f32_def)
qed

lemma f32_nonneg: "0 \<le> x \<Longrightarrow> 0 \<le> f32 x"
  using f32_ge_grid[of 0 x] by simp

lemma f32_nonpos: "x \<le> 0 \<Longrightarrow> f32 x \<le> 0"
  using f32_le_grid[of x 0] by simp

lemma f32_same_exp:
  assumes "x \<le> y" "ulp_exp x = ulp_exp y" "x \<noteq> 0" "y \<noteq> 0"
  shows "f32 x \<le> f32 y"
proof -
  have u: "(0::rat) < 2 powi ulp_exp y" by simp
  have "x / 2 powi ulp_exp y \<le> y / 2 powi ulp_exp y"
    using assms(1) u by (simp add: divide_right_mono)
  then have "round_even (x / 2 powi ulp_exp y) \<le> round_even (y / 2 powi ulp_exp y)"
    by (rule round_even_mono)
  then have "(of_int (round_even (x / 2 powi ulp_exp y)) :: rat)
      \<le> of_int (round_even (y / 2 powi ulp_exp y))"
    by (simp only: of_int_le_iff)
  then show ?thesis
    using u assms(2,3,4) by (simp add: f32_def)
qed

lemma abs_below_binade:
  assumes "x \<noteq> 0"
  shows "\<bar>x\<bar> < 2 powi (ulp_exp x + 24)"
proof -
  have "\<bar>x\<bar> < 2 powi (flog2 \<bar>x\<bar> + 1)"
    using flog2_bounds[of "\<bar>x\<bar>"] assms by simp
  also have "\<dots> \<le> 2 powi (ulp_exp x + 24)"
    by (intro power_int_increasing) (simp_all add: ulp_exp_def)
  finally show ?thesis .
qed

lemma abs_above_binade:
  assumes "x \<noteq> 0" "- 126 \<le> flog2 \<bar>x\<bar>"
  shows "2 powi (ulp_exp x + 23) \<le> \<bar>x\<bar>"
proof -
  have "ulp_exp x + 23 = flog2 \<bar>x\<bar>"
    using assms(2) by (simp add: ulp_exp_def)
  then show ?thesis
    using flog2_bounds[of "\<bar>x\<bar>"] assms(1) by simp
qed

lemma pow_split:
  "(2::rat) powi (e + 24) = of_int 16777216 * 2 powi e"
  "(2::rat) powi (e + 23) = of_int 8388608 * 2 powi e"
  "- ((2::rat) powi (e + 24)) = of_int (- 16777216) * 2 powi e"
  "- ((2::rat) powi (e + 23)) = of_int (- 8388608) * 2 powi e"
  by (simp_all add: power_int_add)

lemma ulp_exp_mono:
  assumes "x \<noteq> 0" "\<bar>x\<bar> \<le> \<bar>y\<bar>"
  shows "ulp_exp x \<le> ulp_exp y"
  using flog2_mono[of "\<bar>x\<bar>" "\<bar>y\<bar>"] assms by (simp add: ulp_exp_def)

lemma ulp_exp_less_normal:
  assumes "ulp_exp x < ulp_exp y"
  shows "- 126 \<le> flog2 \<bar>y\<bar>"
  using assms unfolding ulp_exp_def by linarith

lemma f32_mono_pos:
  assumes "0 < x" "x \<le> y"
  shows "f32 x \<le> f32 y"
proof -
  have y: "0 < y" using assms by simp
  have le: "ulp_exp x \<le> ulp_exp y"
    using ulp_exp_mono[of x y] assms by simp
  show ?thesis
  proof (cases "ulp_exp x = ulp_exp y")
    case True
    then show ?thesis using f32_same_exp[OF assms(2)] assms(1) y by simp
  next
    case False
    with le have lt: "ulp_exp x < ulp_exp y" by simp
    have "\<bar>x\<bar> < 2 powi (ulp_exp x + 24)"
      using abs_below_binade[of x] assms(1) by simp
    then have "x \<le> of_int 16777216 * 2 powi ulp_exp x"
      unfolding pow_split(1) using assms(1) by linarith
    then have "f32 x \<le> of_int 16777216 * 2 powi ulp_exp x"
      by (rule f32_le_grid)
    also have "\<dots> = 2 powi (ulp_exp x + 24)"
      by (simp only: pow_split(1))
    also have "\<dots> \<le> 2 powi (ulp_exp y + 23)"
      using lt by (intro power_int_increasing) simp_all
    also have "\<dots> = of_int 8388608 * 2 powi ulp_exp y"
      by (simp only: pow_split(2))
    also have "\<dots> \<le> f32 y"
    proof (rule f32_ge_grid)
      have "2 powi (ulp_exp y + 23) \<le> \<bar>y\<bar>"
        using abs_above_binade[of y, OF _ ulp_exp_less_normal[OF lt]] y by simp
      then show "of_int 8388608 * 2 powi ulp_exp y \<le> y"
        unfolding pow_split(2) using y by linarith
    qed
    finally show ?thesis .
  qed
qed

lemma f32_mono_neg:
  assumes "y < 0" "x \<le> y"
  shows "f32 x \<le> f32 y"
proof -
  have x: "x < 0" using assms by simp
  have le: "ulp_exp y \<le> ulp_exp x"
    using ulp_exp_mono[of y x] assms by simp
  show ?thesis
  proof (cases "ulp_exp x = ulp_exp y")
    case True
    then show ?thesis using f32_same_exp[OF assms(2)] assms(1) x by simp
  next
    case False
    with le have lt: "ulp_exp y < ulp_exp x" by simp
    have "2 powi (ulp_exp x + 23) \<le> \<bar>x\<bar>"
      using abs_above_binade[of x, OF _ ulp_exp_less_normal[OF lt]] x by simp
    then have "x \<le> - (2 powi (ulp_exp x + 23))"
      using x by linarith
    then have "x \<le> of_int (- 8388608) * 2 powi ulp_exp x"
      unfolding pow_split(4) .
    then have "f32 x \<le> of_int (- 8388608) * 2 powi ulp_exp x"
      by (rule f32_le_grid)
    also have "\<dots> = - (2 powi (ulp_exp x + 23))"
      by (simp only: pow_split(4))
    also have "\<dots> \<le> - (2 powi (ulp_exp y + 24))"
    proof -
      have "(2::rat) powi (ulp_exp y + 24) \<le> 2 powi (ulp_exp x + 23)"
        using lt by (intro power_int_increasing) simp_all
      then show ?thesis by linarith
    qed
    also have "\<dots> = of_int (- 16777216) * 2 powi ulp_exp y"
      by (simp only: pow_split(3))
    also have "\<dots> \<le> f32 y"
    proof (rule f32_ge_grid)
      have "\<bar>y\<bar> < 2 powi (ulp_exp y + 24)"
        using abs_below_binade[of y] assms(1) by simp
      then have "- (2 powi (ulp_exp y + 24)) \<le> y"
        using assms(1) by linarith
      then show "of_int (- 16777216) * 2 powi ulp_exp y \<le> y"
        unfolding pow_split(3) .
    qed
    finally show ?thesis .
  qed
qed

lemma f32_mono:
  assumes "x \<le> y"
  shows "f32 x \<le> f32 y"
proof -
  consider "0 < x" | "y < 0" | "x \<le> 0" "0 \<le> y" by linarith
  then show ?thesis
  proof cases
    case 1
    then show ?thesis using f32_mono_pos assms by simp
  next
    case 2
    then show ?thesis using f32_mono_neg assms by simp
  next
    case 3
    then show ?thesis using f32_nonpos[of x] f32_nonneg[of y] by simp
  qed
qed

section \<open>The voltage is monotone in the raw reading\<close>

lemma float_to_int_mono:
  assumes "x \<le> y"
  shows "float_to_int x \<le> float_to_int y"
proof -
  consider "0 \<le> x" | "y < 0" | "x < 0" "0 \<le> y" by linarith
  then show ?thesis
  proof cases
    case 1
    then show ?thesis using assms by (simp add: float_to_int_def floor_mono)
  next
    case 2
    then show ?thesis using assms by (simp add: float_to_int_def ceiling_mono)
  next
    case 3
    have c: "\<lceil>x\<rceil> \<le> 0" using 3(1) by (simp add: ceiling_le_iff)
    have f: "0 \<le> \<lfloor>y\<rfloor>" using 3(2) by simp
    have "float_to_int x = \<lceil>x\<rceil>" "float_to_int y = \<lfloor>y\<rfloor>"
      using 3 by (simp_all add: float_to_int_def)
    then show ?thesis using c f by linarith
  qed
qed

lemma rounded_volts_mono:
  assumes "x \<le> y"
  shows "rounded_volts x \<le> rounded_volts y"
proof -
  consider "0 \<le> x" | "y < 0" | "x < 0" "0 \<le> y" by linarith
  then show ?thesis
  proof cases
    case 1
    then show ?thesis
      using assms by (simp add: rounded_volts_def fadd_def float_to_int_mono f32_mono)
  next
    case 2
    then show ?thesis
      using assms by (simp add: rounded_volts_def fsub_def float_to_int_mono f32_mono)
  next
    case 3
    have "f32 (x - 1 / 2) \<le> 0" using 3(1) by (intro f32_nonpos) simp
    then have "float_to_int (f32 (x - 1 / 2)) \<le> float_to_int 0"
      by (rule float_to_int_mono)
    moreover have "0 \<le> f32 (y + 1 / 2)" using 3(2) by (intro f32_nonneg) simp
    then have "float_to_int 0 \<le> float_to_int (f32 (y + 1 / 2))"
      by (rule float_to_int_mono)
    ultimately show ?thesis
      using 3 by (simp add: rounded_volts_def fadd_def fsub_def)
  qed
qed

lemma Vin_of_mono:
  assumes "x \<le> y"
  shows "Vin_of x \<le> Vin_of y"
proof -
  define K where "K = fadd (fadd (fdiv 1 RA) (fdiv 1 RB)) (fdiv 1 RC)"
  have a: "0 \<le> fdiv 1 RA" "0 \<le> fdiv 1 RB" "0 \<le> fdiv 1 RC"
    by (simp_all add: fdiv_def RA_def RB_def RC_def f32_nonneg)
  have K: "0 \<le> K"
    unfolding K_def fadd_def using a by (intro f32_nonneg add_nonneg_nonneg) (simp_all add: fadd_def f32_nonneg)
  have "x * K \<le> y * K" using assms K by (rule mult_right_mono)
  then have "f32 (x * K) - fdiv Vbias RB \<le> f32 (y * K) - fdiv Vbias RB"
    by (simp add: f32_mono)
  then have "f32 (f32 (x * K) - fdiv Vbias RB) * RA \<le> f32 (f32 (y * K) - fdiv Vbias RB) * RA"
    by (intro mult_right_mono f32_mono) (simp_all add: RA_def)
  then show ?thesis
    unfolding Vin_of_def K_def[symmetric] fmul_def fsub_def by (rule f32_mono)
qed

lemma Vout_of_mono:
  assumes "a \<le> b"
  shows "Vout_of a \<le> Vout_of b"
proof -
  have "unat a \<le> unat b" using assms by (simp add: word_le_nat_alt)
  then have "(of_nat (unat a) :: rat) \<le> of_nat (unat b)" by (rule of_nat_mono)
  then have "f32 (of_nat (unat a)) * Vref \<le> f32 (of_nat (unat b)) * Vref"
    by (intro mult_right_mono f32_mono) (simp_all add: Vref_def)
  then have "f32 (f32 (of_nat (unat a)) * Vref) / 1024 \<le> f32 (f32 (of_nat (unat b)) * Vref) / 1024"
    by (intro divide_right_mono f32_mono) simp_all
  then show ?thesis
    unfolding Vout_of_def fdiv_def fmul_def by (rule f32_mono)
qed

lemma volts_mono: "a \<le> b \<Longrightarrow> volts a \<le> volts b"
  unfolding volts_def by (intro rounded_volts_mono Vin_of_mono Vout_of_mono)

section \<open>The voltages at both ends of the converter's range\<close>

lemma flog2_eqI:
  assumes "2 powi e \<le> x" "x < 2 powi (e + 1)"
  shows "flog2 x = e"
proof -
  have pos: "0 < x"
    using assms(1) by (rule less_le_trans[rotated]) simp
  have b: "2 powi flog2 x \<le> x" "x < 2 powi (flog2 x + 1)"
    using flog2_bounds[OF pos] by simp_all
  have "\<not> e + 1 \<le> flog2 x"
  proof
    assume "e + 1 \<le> flog2 x"
    then have "(2::rat) powi (e + 1) \<le> 2 powi flog2 x"
      by (intro power_int_increasing) simp_all
    then show False using b(1) assms(2) by linarith
  qed
  moreover have "\<not> flog2 x + 1 \<le> e"
  proof
    assume "flog2 x + 1 \<le> e"
    then have "(2::rat) powi (flog2 x + 1) \<le> 2 powi e"
      by (intro power_int_increasing) simp_all
    then show False using b(2) assms(1) by linarith
  qed
  ultimately show ?thesis by linarith
qed

lemma round_even_eqI:
  assumes "\<bar>of_int m - y\<bar> < 1 / 2"
  shows "round_even y = m"
proof -
  have "\<bar>(of_int (round_even y) :: rat) - of_int m\<bar> < 1"
    using round_even_near[of y] assms by linarith
  then have "\<bar>(of_int (round_even y - m) :: rat)\<bar> < of_int 1"
    by simp
  then have "\<bar>round_even y - m\<bar> < 1"
    by (simp only: of_int_abs[symmetric] of_int_less_iff)
  then show ?thesis by linarith
qed

lemma f32_evalI:
  assumes "- 126 \<le> e" "2 powi e \<le> \<bar>x\<bar>" "\<bar>x\<bar> < 2 powi (e + 1)"
    and "\<bar>of_int m - x / 2 powi (e - 23)\<bar> < 1 / 2"
    and "r = of_int m * 2 powi (e - 23)"
  shows "f32 x = r"
proof -
  have nz: "x \<noteq> 0"
  proof
    assume "x = 0"
    then have "(2::rat) powi e \<le> 0" using assms(2) by simp
    moreover have "(0::rat) < 2 powi e" by simp
    ultimately show False by linarith
  qed
  have "flog2 \<bar>x\<bar> = e" using assms(2,3) by (rule flog2_eqI)
  then have u: "ulp_exp x = e - 23" using assms(1) by (simp add: ulp_exp_def)
  have "round_even (x / 2 powi (e - 23)) = m" using assms(4) by (rule round_even_eqI)
  then show ?thesis using nz by (simp add: f32_def u assms(5))
qed

lemma f32_0: "f32 0 = 0"
  by (simp add: f32_def)

lemma scale_factor_value:
  "fadd (fadd (fdiv 1 RA) (fdiv 1 RB)) (fdiv 1 RC) = 8309605 / 34359738368"
proof -
  have c1: "fdiv 1 RA = 2748779 / 274877906944"
    unfolding fdiv_def RA_def by (rule f32_evalI[where e = "- 17" and m = "10995116"]) simp_all
  have c2: "fdiv 1 RB = 1047553 / 8589934592"
    unfolding fdiv_def RB_def by (rule f32_evalI[where e = "- 14" and m = "16760848"]) simp_all
  have c3: "fdiv 1 RC = 7551591 / 68719476736"
    unfolding fdiv_def RC_def by (rule f32_evalI[where e = "- 14" and m = "15103182"]) simp_all
  have c4: "fadd (2748779 / 274877906944) (1047553 / 8589934592) = 9067619 / 68719476736"
    unfolding fadd_def by (rule f32_evalI[where e = "- 13" and m = "9067619"]) simp_all
  have c5: "fadd (9067619 / 68719476736) (7551591 / 68719476736) = 8309605 / 34359738368"
    unfolding fadd_def by (rule f32_evalI[where e = "- 13" and m = "16619210"]) simp_all
  show ?thesis
    by (simp only: c1 c2 c3 c4 c5)
qed

lemma bias_term_value: "fdiv Vbias RB = 5237765 / 8589934592"
  unfolding fdiv_def Vbias_def RB_def by (rule f32_evalI[where e = "- 11" and m = "10475530"]) simp_all

lemma volts_0: "volts 0 = - 61"
proof -
  have u: "(of_nat (unat (0 :: 16 word)) :: rat) = 0"
    by simp
  have v1: "f32 (0) = 0"
    by (simp add: f32_0)
  have v2: "fmul (0) Vref = 0"
    unfolding fmul_def Vref_def by (simp add: f32_0)
  have v3: "fdiv (0) 1024 = 0"
    unfolding fdiv_def by (simp add: f32_0)
  have Vout: "Vout_of 0 = 0"
    unfolding Vout_of_def by (simp only: u v1 v2 v3)
  have t1: "fmul (0) (8309605 / 34359738368) = 0"
    unfolding fmul_def by (simp add: f32_0)
  have t2: "fsub (0) (5237765 / 8589934592) = - (5237765 / 8589934592)"
    unfolding fsub_def by (rule f32_evalI[where e = "- 11" and m = "- 10475530"]) simp_all
  have t3: "fmul (- (5237765 / 8589934592)) RA = - (7992195 / 131072)"
    unfolding fmul_def RA_def by (rule f32_evalI[where e = "5" and m = "- 15984390"]) simp_all
  have Vin: "Vin_of (0) = - (7992195 / 131072)"
    unfolding Vin_of_def by (simp only: scale_factor_value bias_term_value t1 t2 t3)
  have w: "fsub (- (7992195 / 131072)) (1 / 2) = - (8057731 / 131072)"
    unfolding fsub_def by (rule f32_evalI[where e = "5" and m = "- 16115462"]) simp_all
  have "rounded_volts (- (7992195 / 131072)) = - 61"
    unfolding rounded_volts_def w by (simp add: float_to_int_def floor_eq_iff ceiling_eq_iff)
  then show ?thesis
    unfolding volts_def Vout Vin .
qed

lemma volts_1023: "volts 1023 = 60"
proof -
  have u: "(of_nat (unat (1023 :: 16 word)) :: rat) = 1023"
    by simp
  have v1: "f32 (1023) = 1023"
    by (rule f32_evalI[where e = "9" and m = "16760832"]) simp_all
  have v2: "fmul (1023) Vref = 5115"
    unfolding fmul_def Vref_def by (rule f32_evalI[where e = "12" and m = "10475520"]) simp_all
  have v3: "fdiv (5115) 1024 = 5115 / 1024"
    unfolding fdiv_def by (rule f32_evalI[where e = "2" and m = "10475520"]) simp_all
  have Vout: "Vout_of 1023 = 5115 / 1024"
    unfolding Vout_of_def by (simp only: u v1 v2 v3)
  have t1: "fmul (5115 / 1024) (8309605 / 34359738368) = 10376863 / 8589934592"
    unfolding fmul_def by (rule f32_evalI[where e = "- 10" and m = "10376863"]) simp_all
  have t2: "fsub (10376863 / 8589934592) (5237765 / 8589934592) = 2569549 / 4294967296"
    unfolding fsub_def by (rule f32_evalI[where e = "- 11" and m = "10278196"]) simp_all
  have t3: "fmul (2569549 / 4294967296) RA = 7841641 / 131072"
    unfolding fmul_def RA_def by (rule f32_evalI[where e = "5" and m = "15683282"]) simp_all
  have Vin: "Vin_of (5115 / 1024) = 7841641 / 131072"
    unfolding Vin_of_def by (simp only: scale_factor_value bias_term_value t1 t2 t3)
  have w: "fadd (7841641 / 131072) (1 / 2) = 7907177 / 131072"
    unfolding fadd_def by (rule f32_evalI[where e = "5" and m = "15814354"]) simp_all
  have "rounded_volts (7841641 / 131072) = 60"
    unfolding rounded_volts_def w by (simp add: float_to_int_def floor_eq_iff ceiling_eq_iff)
  then show ?thesis
    unfolding volts_def Vout Vin .
qed

lemma volts_65535: "volts 65535 = 7678"
proof -
  have u: "(of_nat (unat (65535 :: 16 word)) :: rat) = 65535"
    by simp
  have v1: "f32 (65535) = 65535"
    by (rule f32_evalI[where e = "15" and m = "16776960"]) simp_all
  have v2: "fmul (65535) Vref = 327675"
    unfolding fmul_def Vref_def by (rule f32_evalI[where e = "18" and m = "10485600"]) simp_all
  have v3: "fdiv (327675) 1024 = 327675 / 1024"
    unfolding fdiv_def by (rule f32_evalI[where e = "8" and m = "10485600"]) simp_all
  have Vout: "Vout_of 65535 = 327675 / 1024"
    unfolding Vout_of_def by (simp only: u v1 v2 v3)
  have t1: "fmul (327675 / 1024) (8309605 / 34359738368) = 324589 / 4194304"
    unfolding fmul_def by (rule f32_evalI[where e = "- 4" and m = "10386848"]) simp_all
  have t2: "fsub (324589 / 4194304) (5237765 / 8589934592) = 644063 / 8388608"
    unfolding fsub_def by (rule f32_evalI[where e = "- 4" and m = "10305008"]) simp_all
  have t3: "fmul (644063 / 8388608) RA = 7862097 / 1024"
    unfolding fmul_def RA_def by (rule f32_evalI[where e = "12" and m = "15724194"]) simp_all
  have Vin: "Vin_of (327675 / 1024) = 7862097 / 1024"
    unfolding Vin_of_def by (simp only: scale_factor_value bias_term_value t1 t2 t3)
  have w: "fadd (7862097 / 1024) (1 / 2) = 7862609 / 1024"
    unfolding fadd_def by (rule f32_evalI[where e = "12" and m = "15725218"]) simp_all
  have "rounded_volts (7862097 / 1024) = 7678"
    unfolding rounded_volts_def w by (simp add: float_to_int_def floor_eq_iff ceiling_eq_iff)
  then show ?thesis
    unfolding volts_def Vout Vin .
qed

lemma volts_range:
  assumes "aval \<le> 1023"
  shows "- 61 \<le> volts aval \<and> volts aval \<le> 60"
  using volts_mono[of 0 aval] volts_mono[OF assms] by (simp add: volts_0 volts_1023)

lemma volts_int_range: "- 61 \<le> volts aval \<and> volts aval \<le> 7678"
proof -
  have "unat aval < 2 ^ LENGTH(16)"
    by (rule unsigned_less)
  then have "aval \<le> 65535"
    by (simp add: word_le_nat_alt)
  then show ?thesis
    using volts_mono[of 0 aval] volts_mono[of aval 65535]
    by (simp add: volts_0 volts_65535)
qed

lemma stored_volts_exact:
  assumes "aval \<le> 1023"
  shows "sint (word_of_int (volts aval) :: 8 word) = volts aval"
  using volts_range[OF assms] by (simp add: signed_of_int signed_take_bit_int_eq_self)

text \<open>
  Claim C8. The rounded voltage \<open>read_voltage\<close> computes from a raw reading, in
  single-precision arithmetic as the program does, never decreases when the raw reading
  increases, over all values a \<open>uint16_t\<close> holds. So reading 0 gives the least voltage,
  -61, and the largest reading of the 10-bit converter, 1023, gives the largest voltage
  of its range, 60.
\<close>

theorem volts_monotone_in_raw_code:
  "(a \<le> b \<longrightarrow> volts a \<le> volts b)
   \<and> volts 0 \<le> volts a
   \<and> (a \<le> 1023 \<longrightarrow> volts a \<le> volts 1023)
   \<and> volts 0 = - 61 \<and> volts 1023 = 60"
  using volts_mono[of a b] volts_mono[of 0 a] volts_mono[of a 1023]
  by (simp add: volts_0 volts_1023)

theorem volts_monotone_in_raw_code_witness:
  "(511 :: 16 word) \<le> 512 \<and> volts 511 \<le> volts 512
   \<and> volts 0 \<le> volts 511
   \<and> (511 :: 16 word) \<le> 1023 \<and> volts 511 \<le> volts 1023
   \<and> volts 0 = - 61 \<and> volts 1023 = 60"
  using volts_monotone_in_raw_code[of 511 512] by simp

section \<open>The history buffers\<close>

lemma rotate_update:
  assumes "c < length h"
  shows "rotate ((c + 1) mod length h) (h[c := w]) = tl (rotate c h) @ [w]"
proof -
  have r: "rotate c h = drop c h @ take c h"
    using assms by (simp add: rotate_drop_take)
  have d: "drop c h = h ! c # drop (Suc c) h"
    using assms by (simp add: Cons_nth_drop_Suc)
  have rhs: "tl (rotate c h) @ [w] = drop (Suc c) h @ take c h @ [w]"
    by (simp add: r d)
  have upd: "h[c := w] = take c h @ w # drop (Suc c) h"
    using assms by (rule upd_conv_take_nth_drop)
  show ?thesis
  proof (cases "Suc c = length h")
    case True
    then have "(c + 1) mod length h = 0" by simp
    moreover have "drop (Suc c) h = []" using True by simp
    ultimately show ?thesis by (simp add: rhs upd)
  next
    case False
    then have lt: "Suc c < length h" using assms by simp
    then have m: "(c + 1) mod length h = Suc c" by simp
    have lt': "Suc c mod length (h[c := w]) = Suc c" using lt by simp
    have "rotate (Suc c) (h[c := w])
        = drop (Suc c mod length (h[c := w])) (h[c := w])
          @ take (Suc c mod length (h[c := w])) (h[c := w])"
      by (rule rotate_drop_take)
    also have "\<dots> = drop (Suc c) (h[c := w]) @ take (Suc c) (h[c := w])"
      unfolding lt' ..
    also have "drop (Suc c) (h[c := w]) = drop (Suc c) h"
      by simp
    also have "take (Suc c) (h[c := w]) = take c h @ [w]"
      using assms by (simp add: take_Suc_conv_app_nth)
    finally have "rotate (Suc c) (h[c := w]) = drop (Suc c) h @ take c h @ [w]"
      by (simp only: append_assoc)
    then show ?thesis unfolding m rhs .
  qed
qed

lemma store_one_view:
  assumes "line_ok l"
  shows "line_ok (l\<lparr>history := (history l)[nat (nextslot l) := w],
                    nextslot := (nextslot l + 1) mod int NUM_HISTORY\<rparr>)
       \<and> cursor_view (l\<lparr>history := (history l)[nat (nextslot l) := w],
                    nextslot := (nextslot l + 1) mod int NUM_HISTORY\<rparr>)
           = tl (cursor_view l) @ [w]"
proof -
  have c: "0 \<le> nextslot l" "nextslot l < int NUM_HISTORY"
    and len: "length (history l) = NUM_HISTORY"
    using assms by (simp_all add: line_ok_def)
  have n: "nat (nextslot l) < length (history l)" using c len by simp
  have m: "nat ((nextslot l + 1) mod int NUM_HISTORY) = (nat (nextslot l) + 1) mod length (history l)"
    using c by (simp add: len nat_mod_distrib nat_add_distrib)
  have v: "rotate (nat ((nextslot l + 1) mod int NUM_HISTORY))
             ((history l)[nat (nextslot l) := w])
           = tl (rotate (nat (nextslot l)) (history l)) @ [w]"
    unfolding m by (rule rotate_update[OF n])
  have ok: "0 \<le> (nextslot l + 1) mod int NUM_HISTORY"
    "(nextslot l + 1) mod int NUM_HISTORY < int NUM_HISTORY"
    by (simp_all add: NUM_HISTORY_val)
  show ?thesis
    using v ok by (simp add: line_ok_def cursor_view_def len)
qed

lemma store_all_view:
  assumes "line_ok l"
  shows "line_ok (store_all ws l)
       \<and> cursor_view (store_all ws l) = drop (length ws) (cursor_view l @ ws)"
proof (induction ws rule: rev_induct)
  case Nil
  show ?case using assms by (simp add: store_all_def)
next
  case (snoc w ws)
  define l1 where "l1 = store_all ws l"
  have ok1: "line_ok l1" and v1: "cursor_view l1 = drop (length ws) (cursor_view l @ ws)"
    using snoc by (simp_all add: l1_def)
  have step: "store_all (ws @ [w]) l
      = l1\<lparr>history := (history l1)[nat (nextslot l1) := w],
            nextslot := (nextslot l1 + 1) mod int NUM_HISTORY\<rparr>"
    by (simp add: store_all_def l1_def)
  have lv: "length (cursor_view l) = NUM_HISTORY"
    using assms by (simp add: cursor_view_def line_ok_def)
  have pos: "0 < NUM_HISTORY" by (simp add: NUM_HISTORY_val)
  have "Suc (length ws) \<le> length (cursor_view l @ ws)"
    using lv pos by simp
  then have "drop (Suc (length ws)) ((cursor_view l @ ws) @ [w])
      = drop (Suc (length ws)) (cursor_view l @ ws) @ [w]"
    by (simp only: drop_append diff_is_0_eq' drop_0)
  then have "drop (Suc (length ws)) (cursor_view l @ ws @ [w])
      = drop (Suc (length ws)) (cursor_view l @ ws) @ [w]"
    by (simp only: append_assoc)
  moreover have "tl (drop (length ws) (cursor_view l @ ws))
      = drop (Suc (length ws)) (cursor_view l @ ws)"
    by (simp only: drop_Suc tl_drop)
  ultimately have "tl (cursor_view l1) @ [w]
      = drop (Suc (length ws)) (cursor_view l @ ws @ [w])"
    unfolding v1 by simp
  then show ?case
    unfolding step using store_one_view[OF ok1, of w] by simp
qed

lemma nextslot_store_all:
  "nextslot (store_all ws l) = (nextslot l + int (length ws)) mod int NUM_HISTORY"
  if "line_ok l"
proof (induction ws rule: rev_induct)
  case Nil
  show ?case using that by (simp add: store_all_def line_ok_def)
next
  case (snoc w ws)
  have "nextslot (store_all (ws @ [w]) l) = (nextslot (store_all ws l) + 1) mod int NUM_HISTORY"
    by (simp add: store_all_def)
  also have "\<dots> = ((nextslot l + int (length ws)) mod int NUM_HISTORY + 1) mod int NUM_HISTORY"
    by (simp only: snoc)
  also have "\<dots> = (nextslot l + int (length ws) + 1) mod int NUM_HISTORY"
    by (rule mod_add_left_eq)
  also have "\<dots> = (nextslot l + int (length (ws @ [w]))) mod int NUM_HISTORY"
    by (simp add: ac_simps)
  finally show ?case .
qed

lemma deref_assign [simp]: "deref p (assign p l s) = l"
  by (cases p) simp_all

lemma deref_assign_other: "q \<noteq> p \<Longrightarrow> deref q (assign p l s) = deref q s"
  by (cases p; cases q) simp_all

lemma deref_trace_count [simp]:
  "deref q (s\<lparr>trace := t, count := c\<rparr>) = deref q s"
  by (cases q) simp_all

lemma read_voltage_effect:
  assumes "line_ok (deref p s0)"
  shows "\<exists>s'. read_voltage p aval s0 = Some (volts aval, s')
        \<and> history (deref p s')
            = (history (deref p s0))[nat (nextslot (deref p s0)) := word_of_int (volts aval)]
        \<and> nextslot (deref p s') = (nextslot (deref p s0) + 1) mod int NUM_HISTORY
        \<and> line_ok (deref p s')
        \<and> (\<forall>q. q \<noteq> p \<longrightarrow> deref q s' = deref q s0)
        \<and> (aval \<le> 1023 \<longrightarrow>
             sint (history (deref p s') ! nat (nextslot (deref p s0))) = volts aval)"
proof -
  define s' where "s' = assign p (store_sample (volts aval) (deref p s0))
             (s0\<lparr>trace := trace s0 @ [AnalogRead (port (deref p s0))], count := count s0 + 1\<rparr>)"
  have r: "read_voltage p aval s0 = Some (volts aval, s')"
    unfolding s'_def by (rule read_voltage_Some[OF assms])
  have d: "deref p s' = store_sample (volts aval) (deref p s0)"
    by (simp add: s'_def)
  have n: "nat (nextslot (deref p s0)) < length (history (deref p s0))"
    using assms by (simp add: line_ok_def nat_less_iff)
  have o: "\<forall>q. q \<noteq> p \<longrightarrow> deref q s' = deref q s0"
    by (simp add: s'_def deref_assign_other)
  have e: "aval \<le> 1023 \<longrightarrow>
      sint (history (deref p s') ! nat (nextslot (deref p s0))) = volts aval"
    using n by (simp add: d store_sample_def stored_volts_exact)
  show ?thesis
    using r o e line_ok_store_sample[OF assms, of "volts aval"]
    by (intro exI[of _ s']) (simp add: d, simp add: store_sample_def)
qed

lemma samples_drop:
  "drop n (ring_samples xs @ ring_samples ys) = ring_samples (drop n (xs @ ys))"
  "drop n (tip_samples xs @ tip_samples ys) = tip_samples (drop n (xs @ ys))"
  by (simp_all add: ring_samples_def tip_samples_def drop_map)

lemma initial_lines:
  "line_ok (pbx_ring initial_state)" "line_ok (pbx_tip initial_state)"
  "nextslot (pbx_ring initial_state) = 0" "nextslot (pbx_tip initial_state) = 0"
  "length (cursor_view (pbx_ring initial_state)) = NUM_HISTORY"
  "length (cursor_view (pbx_tip initial_state)) = NUM_HISTORY"
  by (simp_all add: initial_state_def line_ok_def cursor_view_def NUM_HISTORY_val)

lemma setup_buffers:
  "\<exists>s1. setup_proc adc initial_state = Some s1 \<and> state_ok s1
      \<and> count s1 = 2 * of_nat NUM_HISTORY
      \<and> nextslot (pbx_ring s1) = 0 \<and> nextslot (pbx_tip s1) = 0
      \<and> history (pbx_ring s1) = ring_samples (map adc [0..<NUM_HISTORY])
      \<and> history (pbx_tip s1) = tip_samples (map adc [0..<NUM_HISTORY])"
proof -
  define s1 where "s1 = (filled NUM_HISTORY adc before_fill)\<lparr>last_linestate := ON_HOOK\<rparr>"
  define ws where "ws = ring_samples (map adc [0..<NUM_HISTORY])"
  define wt where "wt = tip_samples (map adc [0..<NUM_HISTORY])"
  have len: "length ws = NUM_HISTORY" "length wt = NUM_HISTORY"
    by (simp_all add: ws_def wt_def ring_samples_def tip_samples_def)
  have su: "setup_proc adc initial_state = Some s1"
    by (simp add: s1_def setup_proc_Some)
  have ok: "state_ok s1"
    using initial_fill_Some[OF before_fill_ok, of NUM_HISTORY adc]
    unfolding s1_def state_ok_def by simp
  have r: "pbx_ring s1 = store_all ws (pbx_ring initial_state)"
    and t: "pbx_tip s1 = store_all wt (pbx_tip initial_state)"
    by (simp_all add: s1_def ws_def wt_def)
  have nr: "nextslot (pbx_ring s1) = 0"
    unfolding r using nextslot_store_all[OF initial_lines(1), of ws]
    by (simp add: initial_lines len)
  have nt: "nextslot (pbx_tip s1) = 0"
    unfolding t using nextslot_store_all[OF initial_lines(2), of wt]
    by (simp add: initial_lines len)
  have "cursor_view (pbx_ring s1) = ws"
    unfolding r using store_all_view[OF initial_lines(1), of ws]
    by (simp add: initial_lines len)
  then have hr: "history (pbx_ring s1) = ws"
    by (simp add: cursor_view_def nr)
  have "cursor_view (pbx_tip s1) = wt"
    unfolding t using store_all_view[OF initial_lines(2), of wt]
    by (simp add: initial_lines len)
  then have ht: "history (pbx_tip s1) = wt"
    by (simp add: cursor_view_def nt)
  have c: "count s1 = 2 * of_nat NUM_HISTORY"
    by (simp add: s1_def)
  show ?thesis
    using su ok c nr nt hr ht unfolding ws_def wt_def
    by (intro exI[of _ s1] conjI)
qed

text \<open>
  Claim C7. A call of \<open>read_voltage\<close> on a conductor whose cursor is inside its buffer
  stores the rounded voltage in the slot at the cursor (for a reading of the 10-bit
  converter the \<open>int8_t\<close> slot holds that voltage itself), moves the cursor to the
  next slot modulo \<open>NUM_HISTORY\<close>, leaves it inside the buffer, and does not touch the
  other conductor. \<open>setup\<close> makes \<open>NUM_HISTORY\<close> acquisitions per conductor, which
  fill both buffers and bring both cursors back to 0. After any number of cycles the two
  cursors are equal and inside the buffers, and each buffer, read from the cursor on,
  holds the last \<open>NUM_HISTORY\<close> samples of its conductor, oldest first: the slot at the
  cursor holds the oldest sample, and equal slots of the two buffers hold the two
  readings of one cycle.
\<close>

theorem history_buffers_in_lockstep:
  "(line_ok (deref p s0) \<longrightarrow>
      (\<exists>s'. read_voltage p aval s0 = Some (volts aval, s')
        \<and> history (deref p s')
            = (history (deref p s0))[nat (nextslot (deref p s0)) := word_of_int (volts aval)]
        \<and> nextslot (deref p s') = (nextslot (deref p s0) + 1) mod int NUM_HISTORY
        \<and> line_ok (deref p s')
        \<and> (\<forall>q. q \<noteq> p \<longrightarrow> deref q s' = deref q s0)
        \<and> (aval \<le> 1023 \<longrightarrow>
             sint (history (deref p s') ! nat (nextslot (deref p s0))) = volts aval)))
   \<and> (\<exists>s1 s. setup_proc adc initial_state = Some s1
        \<and> count s1 = 2 * of_nat NUM_HISTORY
        \<and> nextslot (pbx_ring s1) = 0 \<and> nextslot (pbx_tip s1) = 0
        \<and> history (pbx_ring s1) = ring_samples (map adc [0..<NUM_HISTORY])
        \<and> history (pbx_tip s1) = tip_samples (map adc [0..<NUM_HISTORY])
        \<and> run rds s1 = Some s
        \<and> line_ok (pbx_ring s) \<and> line_ok (pbx_tip s)
        \<and> nextslot (pbx_tip s) = nextslot (pbx_ring s)
        \<and> nextslot (pbx_ring s) = int (length rds mod NUM_HISTORY)
        \<and> cursor_view (pbx_ring s)
            = ring_samples (drop (length rds) (map adc [0..<NUM_HISTORY] @ rds))
        \<and> cursor_view (pbx_tip s)
            = tip_samples (drop (length rds) (map adc [0..<NUM_HISTORY] @ rds)))"
proof (intro conjI impI)
  assume "line_ok (deref p s0)"
  then show "\<exists>s'. read_voltage p aval s0 = Some (volts aval, s')
        \<and> history (deref p s')
            = (history (deref p s0))[nat (nextslot (deref p s0)) := word_of_int (volts aval)]
        \<and> nextslot (deref p s') = (nextslot (deref p s0) + 1) mod int NUM_HISTORY
        \<and> line_ok (deref p s')
        \<and> (\<forall>q. q \<noteq> p \<longrightarrow> deref q s' = deref q s0)
        \<and> (aval \<le> 1023 \<longrightarrow>
             sint (history (deref p s') ! nat (nextslot (deref p s0))) = volts aval)"
    by (rule read_voltage_effect)
next
  obtain s1 where s1: "setup_proc adc initial_state = Some s1" "state_ok s1"
      "count s1 = 2 * of_nat NUM_HISTORY"
      "nextslot (pbx_ring s1) = 0" "nextslot (pbx_tip s1) = 0"
      "history (pbx_ring s1) = ring_samples (map adc [0..<NUM_HISTORY])"
      "history (pbx_tip s1) = tip_samples (map adc [0..<NUM_HISTORY])"
    using setup_buffers[of adc] by blast
  obtain s where s: "run rds s1 = Some s" "state_ok s"
      "pbx_ring s = store_all (ring_samples rds) (pbx_ring s1)"
      "pbx_tip s = store_all (tip_samples rds) (pbx_tip s1)"
    using run_Some[OF s1(2), of rds] by blast
  have okr: "line_ok (pbx_ring s1)" and okt: "line_ok (pbx_tip s1)"
    using s1(2) by (simp_all add: state_ok_def)
  have vr1: "cursor_view (pbx_ring s1) = ring_samples (map adc [0..<NUM_HISTORY])"
    by (simp add: cursor_view_def s1)
  have vt1: "cursor_view (pbx_tip s1) = tip_samples (map adc [0..<NUM_HISTORY])"
    by (simp add: cursor_view_def s1)
  have lens: "length (ring_samples rds) = length rds" "length (tip_samples rds) = length rds"
    by (simp_all add: ring_samples_def tip_samples_def)
  have "cursor_view (pbx_ring s)
      = drop (length (ring_samples rds)) (cursor_view (pbx_ring s1) @ ring_samples rds)"
    unfolding s(3) using store_all_view[OF okr, of "ring_samples rds"] by (rule conjunct2)
  also have "\<dots> = drop (length rds)
      (ring_samples (map adc [0..<NUM_HISTORY]) @ ring_samples rds)"
    by (simp only: vr1 lens)
  also have "\<dots> = ring_samples (drop (length rds) (map adc [0..<NUM_HISTORY] @ rds))"
    by (rule samples_drop(1))
  finally have vr: "cursor_view (pbx_ring s)
      = ring_samples (drop (length rds) (map adc [0..<NUM_HISTORY] @ rds))" .
  have "cursor_view (pbx_tip s)
      = drop (length (tip_samples rds)) (cursor_view (pbx_tip s1) @ tip_samples rds)"
    unfolding s(4) using store_all_view[OF okt, of "tip_samples rds"] by (rule conjunct2)
  also have "\<dots> = drop (length rds)
      (tip_samples (map adc [0..<NUM_HISTORY]) @ tip_samples rds)"
    by (simp only: vt1 lens)
  also have "\<dots> = tip_samples (drop (length rds) (map adc [0..<NUM_HISTORY] @ rds))"
    by (rule samples_drop(2))
  finally have vt: "cursor_view (pbx_tip s)
      = tip_samples (drop (length rds) (map adc [0..<NUM_HISTORY] @ rds))" .
  have nr: "nextslot (pbx_ring s) = int (length rds mod NUM_HISTORY)"
    unfolding s(3) nextslot_store_all[OF okr] s1(4) lens
    by (simp add: zmod_int)
  have l: "line_ok (pbx_ring s)" "line_ok (pbx_tip s)"
      "nextslot (pbx_tip s) = nextslot (pbx_ring s)"
    using s(2) by (simp_all add: state_ok_def)
  show "\<exists>s1 s. setup_proc adc initial_state = Some s1
        \<and> count s1 = 2 * of_nat NUM_HISTORY
        \<and> nextslot (pbx_ring s1) = 0 \<and> nextslot (pbx_tip s1) = 0
        \<and> history (pbx_ring s1) = ring_samples (map adc [0..<NUM_HISTORY])
        \<and> history (pbx_tip s1) = tip_samples (map adc [0..<NUM_HISTORY])
        \<and> run rds s1 = Some s
        \<and> line_ok (pbx_ring s) \<and> line_ok (pbx_tip s)
        \<and> nextslot (pbx_tip s) = nextslot (pbx_ring s)
        \<and> nextslot (pbx_ring s) = int (length rds mod NUM_HISTORY)
        \<and> cursor_view (pbx_ring s)
            = ring_samples (drop (length rds) (map adc [0..<NUM_HISTORY] @ rds))
        \<and> cursor_view (pbx_tip s)
            = tip_samples (drop (length rds) (map adc [0..<NUM_HISTORY] @ rds))"
    using s1(1,3-7) s(1) l nr vr vt
    by (intro exI[of _ s1] exI[of _ s] conjI)
qed

theorem history_buffers_in_lockstep_witness:
  "line_ok (deref PTR_pbx_ring initial_state) \<and> (0 :: 16 word) \<le> 1023
   \<and> (\<exists>s'. read_voltage PTR_pbx_ring 0 initial_state = Some (- 61, s')
        \<and> nextslot (pbx_ring s') = 1
        \<and> sint (history (pbx_ring s') ! 0) = - 61
        \<and> pbx_tip s' = pbx_tip initial_state)
   \<and> (\<exists>s1 s. setup_proc (\<lambda>i. (0, 1023)) initial_state = Some s1
        \<and> run [(0, 0), (0, 0), (0, 0)] s1 = Some s
        \<and> nextslot (pbx_ring s) = 3 \<and> nextslot (pbx_tip s) = 3)"
proof -
  have ok: "line_ok (deref PTR_pbx_ring initial_state)"
    by (simp add: initial_lines)
  have i: "nextslot (pbx_ring initial_state) = 0" by (rule initial_lines)
  note T = history_buffers_in_lockstep[of PTR_pbx_ring initial_state 0 "\<lambda>i. (0, 1023)"
      "[(0, 0), (0, 0), (0, 0)]"]
  from T[THEN conjunct1, rule_format, OF ok]
  obtain s' where s': "read_voltage PTR_pbx_ring 0 initial_state = Some (volts 0, s')"
      "nextslot (deref PTR_pbx_ring s')
         = (nextslot (deref PTR_pbx_ring initial_state) + 1) mod int NUM_HISTORY"
      "\<forall>q. q \<noteq> PTR_pbx_ring \<longrightarrow> deref q s' = deref q initial_state"
      "(0 :: 16 word) \<le> 1023 \<longrightarrow>
         sint (history (deref PTR_pbx_ring s')
                ! nat (nextslot (deref PTR_pbx_ring initial_state))) = volts 0"
    by blast
  from T[THEN conjunct2]
  obtain s1 s where b: "setup_proc (\<lambda>i. (0, 1023)) initial_state = Some s1"
      "run [(0, 0), (0, 0), (0, 0)] s1 = Some s"
      "nextslot (pbx_tip s) = nextslot (pbx_ring s)"
      "nextslot (pbx_ring s)
         = int (length [(0 :: 16 word, 0 :: 16 word), (0, 0), (0, 0)] mod NUM_HISTORY)"
    by blast
  have t: "pbx_tip s' = pbx_tip initial_state"
    using s'(3)[rule_format, of PTR_pbx_tip] by simp
  have a': "\<exists>s'. read_voltage PTR_pbx_ring 0 initial_state = Some (- 61, s')
        \<and> nextslot (pbx_ring s') = 1
        \<and> sint (history (pbx_ring s') ! 0) = - 61
        \<and> pbx_tip s' = pbx_tip initial_state"
    using s'(1,2,4) t by (intro exI[of _ s']) (simp add: i volts_0 NUM_HISTORY_val)
  have b': "\<exists>s1 s. setup_proc (\<lambda>i. (0, 1023)) initial_state = Some s1
        \<and> run [(0, 0), (0, 0), (0, 0)] s1 = Some s
        \<and> nextslot (pbx_ring s) = 3 \<and> nextslot (pbx_tip s) = 3"
    using b by (intro exI[of _ s1] exI[of _ s]) (simp add: NUM_HISTORY_val)
  show ?thesis
    using ok a' b' by simp
qed

end
